theory Spec2Isabelle
  imports Complex_Main "HOL-Library.Word" "HOL-Library.Monad_Syntax"
begin

unbundle bit_operations_syntax

section \<open>The printer object and its environment\<close>

text \<open>
  A shallow embedding of \<^verbatim>\<open>Adafruit_Thermal.cpp\<close>. The member variables of the class
  become the fields of a record; every member function becomes a function from the
  record to the updated record.

  The class declaration (\<^verbatim>\<open>Adafruit_Thermal.h\<close>) is not among the sources. The byte-sized
  members are given the width of the \<^verbatim>\<open>uint8_t\<close> arguments that the member functions
  store in them and send from them (the width they have in the Adafruit library this
  one is derived from), \<^verbatim>\<open>firmware\<close> the width of the \<^verbatim>\<open>uint16_t\<close> argument
  of \<^verbatim>\<open>begin\<close>, and the three times the width of \<^verbatim>\<open>unsigned long\<close> on the targets of the
  library (32 bits), which is also the width of \<^verbatim>\<open>micros()\<close>. Arguments and local
  variables of type \<^verbatim>\<open>int\<close> are unbounded integers: the model follows the code wherever no
  \<^verbatim>\<open>int\<close> computation overflows (an overflow is undefined in C).

  The code talks to four things outside the object. Each is a field of the record:
  \<^item> \<open>out\<close>: the bytes written to the printer with \<^verbatim>\<open>stream->write\<close>, oldest first;
  \<^item> \<open>rx\<close>: what the coming polls of \<^verbatim>\<open>stream->available()\<close> will find, one entry per
    poll: \<open>Some b\<close> when a byte \<open>b\<close> is waiting (and \<^verbatim>\<open>stream->read()\<close> returns it),
    \<open>None\<close> when nothing is; after the last entry the line stays silent;
  \<^item> \<open>ticks\<close>: the values the coming calls of \<^verbatim>\<open>micros()\<close> will return;
  \<^item> \<open>pin\<close>: what the coming calls of \<^verbatim>\<open>digitalRead(dtrPin)\<close> will return
    (\<open>True\<close> for \<^verbatim>\<open>HIGH\<close>).
  A function that needs a clock or pin reading beyond the end of its list has not
  returned within the readings modelled: its result is \<open>None\<close>.
\<close>

type_synonym u8 = "8 word"
type_synonym u16 = "16 word"
type_synonym u32 = "32 word"

record thermal =
  out :: "u8 list"
  rx :: "u8 option list"
  ticks :: "u32 list"
  pin :: "bool list"
  dtrPin :: u8
  dtrEnabled :: bool
  firmware :: u16
  resumeTime :: u32
  dotPrintTime :: u32
  dotFeedTime :: u32
  printMode :: u8
  prevByte :: u8
  column :: u8
  maxColumn :: u8
  charWidth :: u8
  charHeight :: u8
  lineSpacing :: u8
  barcodeHeight :: u8
  maxChunkHeight :: u8
  fontData :: u8
  autoLineHeight :: bool

subsection \<open>Constants\<close>

definition BAUDRATE :: int where
  "BAUDRATE = 9600"

text \<open>The body of the macro \<^verbatim>\<open>BYTE_TIME\<close>, with the bit rate it reads as an argument.\<close>

definition byteTime :: "int \<Rightarrow> int" where
  "byteTime rate = ((11 * 1000000) + (rate div 2)) div rate"

definition BYTE_TIME :: int where
  "BYTE_TIME = byteTime BAUDRATE"

abbreviation (input) ASCII_TAB :: u8 where "ASCII_TAB \<equiv> 9"
abbreviation (input) ASCII_LF :: u8 where "ASCII_LF \<equiv> 10"
abbreviation (input) ASCII_FF :: u8 where "ASCII_FF \<equiv> 12"
abbreviation (input) ASCII_CR :: u8 where "ASCII_CR \<equiv> 13"
abbreviation (input) ASCII_DC2 :: u8 where "ASCII_DC2 \<equiv> 18"
abbreviation (input) ASCII_ESC :: u8 where "ASCII_ESC \<equiv> 27"
abbreviation (input) ASCII_FS :: u8 where "ASCII_FS \<equiv> 28"
abbreviation (input) ASCII_GS :: u8 where "ASCII_GS \<equiv> 29"
abbreviation (input) FIN_CMD :: u8 where "FIN_CMD \<equiv> 12"

abbreviation (input) DOUBLE_HEIGHT_MASK :: u8 where "DOUBLE_HEIGHT_MASK \<equiv> 16"
abbreviation (input) DOUBLE_WIDTH_MASK :: u8 where "DOUBLE_WIDTH_MASK \<equiv> 32"

subsection \<open>The timing throttle\<close>

definition micros :: "thermal \<Rightarrow> (u32 \<times> thermal) option" where
  "micros s = (case ticks s of [] \<Rightarrow> None | t # ts \<Rightarrow> Some (t, s\<lparr>ticks := ts\<rparr>))"

definition timeoutSet :: "u32 \<Rightarrow> thermal \<Rightarrow> thermal option" where
  "timeoutSet x s =
     (if \<not> dtrEnabled s
      then (case micros s of
              None \<Rightarrow> None
            | Some (now, s1) \<Rightarrow> Some (s1\<lparr>resumeTime := now + x\<rparr>))
      else Some s)"

text \<open>
  The two loops of \<^verbatim>\<open>timeoutWait\<close>, one reading per iteration. The second compares as
  the code does: the difference of two \<^verbatim>\<open>unsigned long\<close>, read as a \<^verbatim>\<open>long\<close>.
\<close>

fun waitPin :: "bool list \<Rightarrow> bool list option" where
  "waitPin [] = None"
| "waitPin (high # ps) = (if high then waitPin ps else Some ps)"

fun waitClock :: "u32 \<Rightarrow> u32 list \<Rightarrow> u32 list option" where
  "waitClock r [] = None"
| "waitClock r (t # ts) = (if sint (t - r) < 0 then waitClock r ts else Some ts)"

definition timeoutWait :: "thermal \<Rightarrow> thermal option" where
  "timeoutWait s =
     (if dtrEnabled s
      then map_option (\<lambda>ps. s\<lparr>pin := ps\<rparr>) (waitPin (pin s))
      else map_option (\<lambda>ts. s\<lparr>ticks := ts\<rparr>) (waitClock (resumeTime s) (ticks s)))"

definition setTimes :: "u32 \<Rightarrow> u32 \<Rightarrow> thermal \<Rightarrow> thermal" where
  "setTimes p f s = s\<lparr>dotPrintTime := p, dotFeedTime := f\<rparr>"

subsection \<open>Writing bytes\<close>

definition streamWrite :: "u8 \<Rightarrow> thermal \<Rightarrow> thermal" where
  "streamWrite b s = s\<lparr>out := out s @ [b]\<rparr>"

text \<open>
  The five overloads of \<^verbatim>\<open>writeBytes\<close>, for one to five bytes, are one function of the
  list of their arguments: wait, write each byte, and set the timeout to the number of
  bytes times \<^verbatim>\<open>BYTE_TIME\<close>.
\<close>

definition writeBytes :: "u8 list \<Rightarrow> thermal \<Rightarrow> thermal option" where
  "writeBytes bs s = do {
     s1 \<leftarrow> timeoutWait s;
     timeoutSet (word_of_int (int (length bs) * BYTE_TIME)) (fold streamWrite bs s1)
   }"

definition writeCmdBytes :: "u8 \<Rightarrow> u8 \<Rightarrow> u8 \<Rightarrow> bool \<Rightarrow> thermal \<Rightarrow> thermal option" where
  "writeCmdBytes a b c d s = do {
     s1 \<leftarrow> (if \<not> d then timeoutWait s else Some s);
     timeoutSet (word_of_int (3 * BYTE_TIME)) (streamWrite c (streamWrite b (streamWrite a s1)))
   }"

text \<open>
  The text writer, \<^verbatim>\<open>write(uint8_t c)\<close> (\<open>write\<close> is a keyword of Isabelle, hence the
  name). It returns 1 whatever it is given; the model returns the object.
  The sum \<^verbatim>\<open>charHeight + lineSpacing\<close> is computed in \<^verbatim>\<open>int\<close> and does not wrap at 256;
  the products are \<^verbatim>\<open>unsigned long\<close>.
\<close>

definition write_byte :: "u8 \<Rightarrow> thermal \<Rightarrow> thermal option" where
  "write_byte c s =
     (if c \<noteq> 13 then do {
        s1 \<leftarrow> timeoutWait s;
        let s2 = streamWrite c s1;
        let wrap = (c = ASCII_LF \<or> column s2 = maxColumn s2);
        let d = (if wrap
                 then word_of_int BYTE_TIME +
                      (if prevByte s2 = ASCII_LF
                       then (ucast (charHeight s2) + ucast (lineSpacing s2)) * dotFeedTime s2
                       else ucast (charHeight s2) * dotPrintTime s2 +
                            ucast (lineSpacing s2) * dotFeedTime s2)
                 else word_of_int BYTE_TIME);
        let s3 = (if wrap then s2\<lparr>column := 0\<rparr> else s2\<lparr>column := column s2 + 1\<rparr>);
        let c' = (if wrap then ASCII_LF else c);
        s4 \<leftarrow> timeoutSet d s3;
        Some (s4\<lparr>prevByte := c'\<rparr>)
      }
      else Some s)"

text \<open>
  \<^verbatim>\<open>print\<close> and \<^verbatim>\<open>println\<close> are inherited from the Arduino \<^verbatim>\<open>Print\<close> class, which
  calls \<^verbatim>\<open>write\<close> once for each character, in order.
\<close>

fun writeAll :: "u8 list \<Rightarrow> thermal \<Rightarrow> thermal option" where
  "writeAll [] s = Some s"
| "writeAll (c # cs) s = do { s1 \<leftarrow> write_byte c s; writeAll cs s1 }"

subsection \<open>Character metrics, print mode and font\<close>

text \<open>
  \<^verbatim>\<open>adjustCharValues\<close> up to the assignment of \<^verbatim>\<open>fontData\<close>: the part that updates
  the fields, before the first command is issued. \<^verbatim>\<open>384 / charWidth\<close> is an \<^verbatim>\<open>int\<close>
  division whose result is stored in a byte; \<^verbatim>\<open>charWidth\<close> is at least 8 there.
\<close>

text \<open>
  The local \<^verbatim>\<open>fontStyle\<close>: \<^verbatim>\<open>(printMode & 32) << 2\<close>, then \<^verbatim>\<open>| ((printMode & 16) >> 1)\<close>.
\<close>

definition fontStyleOf :: "u8 \<Rightarrow> u8" where
  "fontStyleOf pm = push_bit 2 (pm AND 32) OR drop_bit 1 (pm AND 16)"

definition adjustCharFields :: "thermal \<Rightarrow> thermal" where
  "adjustCharFields s =
     (let currentFont = fontData s AND 7;
          s1 = (if currentFont = 1 then s\<lparr>charWidth := 9, charHeight := 24\<rparr>
                else if currentFont = 2 then s\<lparr>charWidth := 9, charHeight := 17\<rparr>
                else if currentFont = 3 then s\<lparr>charWidth := 8, charHeight := 16\<rparr>
                else if currentFont = 4 then s\<lparr>charWidth := 16, charHeight := 16\<rparr>
                else s\<lparr>charWidth := 12, charHeight := 24\<rparr>);
          s2 = (if printMode s1 AND DOUBLE_WIDTH_MASK \<noteq> 0
                then s1\<lparr>charWidth := charWidth s1 * 2, maxColumn := maxColumn s1 div 2\<rparr>
                else s1);
          s3 = (if printMode s2 AND DOUBLE_HEIGHT_MASK \<noteq> 0
                then s2\<lparr>charHeight := charHeight s2 * 2\<rparr>
                else s2);
          s4 = s3\<lparr>maxColumn := word_of_int (384 div uint (charWidth s3))\<rparr>;
          fontStyle = fontStyleOf (printMode s4)
      in s4\<lparr>fontData := fontStyle OR currentFont\<rparr>)"

text \<open>
  The whole function: the field updates, then the two commands and, with
  \<^verbatim>\<open>autoLineHeight\<close>, the line height command. \<open>currentFont\<close> and \<open>fontStyle\<close> are the
  locals of the first part (the first part changes neither \<^verbatim>\<open>printMode\<close> nor the low
  three bits of \<^verbatim>\<open>fontData\<close>).
\<close>

definition adjustCharValues :: "thermal \<Rightarrow> thermal option" where
  "adjustCharValues s = do {
     let currentFont = fontData s AND 7;
     let fontStyle = fontStyleOf (printMode s);
     let s5 = adjustCharFields s;
     s6 \<leftarrow> writeBytes [ASCII_ESC, 77, currentFont, FIN_CMD] s5;
     s7 \<leftarrow> writeBytes [ASCII_GS, 33, drop_bit 3 fontStyle, FIN_CMD] s6;
     if autoLineHeight s7
     then writeBytes [ASCII_ESC, 51, charHeight s7 + lineSpacing s7] s7
     else Some s7
   }"

definition writePrintMode :: "thermal \<Rightarrow> thermal option" where
  "writePrintMode s = writeBytes [ASCII_ESC, 33, printMode s] s"

definition setPrintMode :: "u8 \<Rightarrow> thermal \<Rightarrow> thermal option" where
  "setPrintMode msk s = do {
     s1 \<leftarrow> writePrintMode (s\<lparr>printMode := printMode s OR msk\<rparr>);
     adjustCharValues s1
   }"

definition unsetPrintMode :: "u8 \<Rightarrow> thermal \<Rightarrow> thermal option" where
  "unsetPrintMode msk s = do {
     s1 \<leftarrow> writePrintMode (s\<lparr>printMode := printMode s AND NOT msk\<rparr>);
     adjustCharValues s1
   }"

definition autoLineHeightOn :: "thermal \<Rightarrow> thermal option" where
  "autoLineHeightOn s = adjustCharValues (s\<lparr>autoLineHeight := True\<rparr>)"

definition autoLineHeightOff :: "thermal \<Rightarrow> thermal option" where
  "autoLineHeightOff s = adjustCharValues (s\<lparr>autoLineHeight := False\<rparr>)"

text \<open>\<^verbatim>\<open>toupper\<close> of the C library, in the C locale, on a byte.\<close>

definition toupper :: "u8 \<Rightarrow> u8" where
  "toupper c = (if 97 \<le> c \<and> c \<le> 122 then c - 32 else c)"

definition setFont :: "u8 \<Rightarrow> thermal \<Rightarrow> thermal option" where
  "setFont font s =
     (let font' =
        (if 65 \<le> font
         then (let f1 = toupper font;
                   f2 = (if 69 < f1 then 65 else f1);
                   f3 = (if f2 < 65 then 65 else f2)
               in f3 - 65)
         else (if 4 < font then 0 else font))
      in adjustCharValues (s\<lparr>fontData := (fontData s AND 248) OR font'\<rparr>))"

subsection \<open>Feeding and line height\<close>

fun feedLines :: "nat \<Rightarrow> thermal \<Rightarrow> thermal option" where
  "feedLines 0 s = Some s"
| "feedLines (Suc n) s = do { s1 \<leftarrow> write_byte ASCII_LF s; feedLines n s1 }"

text \<open>\<^verbatim>\<open>feed\<close>; the loop \<^verbatim>\<open>while (x--) write('\n')\<close> of old firmware is \<open>feedLines\<close>.\<close>

definition feed :: "u8 \<Rightarrow> thermal \<Rightarrow> thermal option" where
  "feed x s =
     (if 264 \<le> firmware s then do {
        s1 \<leftarrow> writeBytes [ASCII_ESC, 100, x] s;
        s2 \<leftarrow> timeoutSet (dotFeedTime s1 * ucast (charHeight s1)) s1;
        Some (s2\<lparr>prevByte := ASCII_LF, column := 0\<rparr>)
      }
      else feedLines (unat x) s)"

definition setLineHeight :: "int \<Rightarrow> thermal \<Rightarrow> thermal option" where
  "setLineHeight val s = do {
     s1 \<leftarrow> autoLineHeightOff s;
     let val' = (if val < 20 then 20 else val);
     let s2 = s1\<lparr>lineSpacing := word_of_int (val' - 20)\<rparr>;
     writeBytes [ASCII_ESC, 51, word_of_int val'] s2
   }"

definition setMaxChunkHeight :: "int \<Rightarrow> thermal \<Rightarrow> thermal" where
  "setMaxChunkHeight val s = s\<lparr>maxChunkHeight := word_of_int val\<rparr>"

subsection \<open>Parameters with a range\<close>

definition underlineOn :: "u8 \<Rightarrow> thermal \<Rightarrow> thermal option" where
  "underlineOn weight s =
     (let weight' = (if 2 < weight then 2 else weight)
      in writeBytes [ASCII_ESC, 45, weight'] s)"

definition setCharset :: "u8 \<Rightarrow> thermal \<Rightarrow> thermal option" where
  "setCharset val s =
     (let val' = (if 15 < val then 15 else val)
      in writeBytes [ASCII_ESC, 82, val'] s)"

definition setCodePage :: "u8 \<Rightarrow> thermal \<Rightarrow> thermal option" where
  "setCodePage val s =
     (let val' = (if 47 < val then 47 else val)
      in writeBytes [ASCII_ESC, 116, val'] s)"

text \<open>
  \<^verbatim>\<open>printBarcode\<close>. The argument \<open>text\<close> is the C string without its terminating NUL
  (so it holds no zero byte), and \<^verbatim>\<open>strlen(text)\<close> is its length. On recent firmware the characters are sent
  one \<^verbatim>\<open>writeBytes\<close> each (\<open>writeEach\<close>), after a length byte. On old firmware the
  string is copied up to and including the NUL by a loop whose index is a byte
  (\<open>copyString\<close>, over the string with its NUL): the index wraps from 255 to 0.
\<close>

fun writeEach :: "u8 list \<Rightarrow> thermal \<Rightarrow> thermal option" where
  "writeEach [] s = Some s"
| "writeEach (c # cs) s = do { s1 \<leftarrow> writeBytes [c] s; writeEach cs s1 }"

partial_function (option) copyString :: "u8 list \<Rightarrow> u8 \<Rightarrow> thermal \<Rightarrow> thermal option" where
  "copyString cstr i s =
     (if unat i < length cstr
      then Option.bind (writeBytes [cstr ! unat i] s)
             (\<lambda>s1. if cstr ! unat i \<noteq> 0 then copyString cstr (i + 1) s1 else Some s1)
      else None)"

definition printBarcode :: "u8 list \<Rightarrow> u8 \<Rightarrow> thermal \<Rightarrow> thermal option" where
  "printBarcode text type s = do {
     s1 \<leftarrow> feed 1 s;
     let type' = (if 264 \<le> firmware s1 then type + 65 else type);
     s2 \<leftarrow> writeBytes [ASCII_GS, 72, 2] s1;
     s3 \<leftarrow> writeBytes [ASCII_GS, 119, 3] s2;
     s4 \<leftarrow> writeBytes [ASCII_GS, 107, type'] s3;
     s5 \<leftarrow> (if 264 \<le> firmware s4
            then do {
              let len = (if 255 < int (length text) then 255 else int (length text));
              s' \<leftarrow> writeBytes [word_of_int len] s4;
              writeEach (take (nat len) text) s'
            }
            else copyString (text @ [0]) 0 s4);
     s6 \<leftarrow> timeoutSet ((ucast (barcodeHeight s5) + 40) * dotPrintTime s5) s5;
     Some (s6\<lparr>prevByte := ASCII_LF\<rparr>)
   }"

subsection \<open>Bitmaps\<close>

text \<open>
  Division of \<^verbatim>\<open>int\<close> in C truncates towards zero. Division by zero is undefined
  there; the callers below test for it and give \<open>None\<close>.
\<close>

definition cdiv :: "int \<Rightarrow> int \<Rightarrow> int" where
  "cdiv a b = sgn a * sgn b * (\<bar>a\<bar> div \<bar>b\<bar>)"

definition rowBytesOf :: "int \<Rightarrow> int" where
  "rowBytesOf w = cdiv (w + 7) 8"

definition rowBytesClippedOf :: "int \<Rightarrow> int" where
  "rowBytesClippedOf rowBytes = (if 48 \<le> rowBytes then 48 else rowBytes)"

text \<open>
  The estimate of the rows to write at once, from \<^verbatim>\<open>dtrEnabled\<close>, \<^verbatim>\<open>maxChunkHeight\<close>
  (as the \<^verbatim>\<open>int\<close> it is compared as) and \<^verbatim>\<open>rowBytesClipped\<close>.
\<close>

definition chunkHeightLimitOf :: "bool \<Rightarrow> int \<Rightarrow> int \<Rightarrow> int option" where
  "chunkHeightLimitOf dtr maxChunk rowBytesClipped =
     (if dtr then Some 255
      else if rowBytesClipped = 0 then None
      else (let chunkHeightLimit = cdiv 256 rowBytesClipped
            in Some (if maxChunk < chunkHeightLimit then maxChunk
                     else if chunkHeightLimit < 1 then 1
                     else chunkHeightLimit)))"

text \<open>The rows of one pass of the outer loop: \<^verbatim>\<open>h - rowStart\<close>, at most the limit.\<close>

definition chunkHeightOf :: "int \<Rightarrow> int \<Rightarrow> int \<Rightarrow> int" where
  "chunkHeightOf h rowStart chunkHeightLimit =
     (if chunkHeightLimit < h - rowStart then chunkHeightLimit else h - rowStart)"

text \<open>
  \<^verbatim>\<open>printBitmap(w, h, bitmap, fromProgMem)\<close>. The bitmap is the list of its bytes,
  whichever memory it is in; reading past its end is undefined in C and \<open>None\<close> here.
  \<open>sendRow\<close> is the loop over \<open>x\<close>, \<open>sendRows\<close> the loop over \<open>y\<close> (with the skip
  \<^verbatim>\<open>i += rowBytes - rowBytesClipped\<close>), \<open>sendChunks\<close> the loop over \<open>rowStart\<close>.
\<close>

fun sendRow :: "nat \<Rightarrow> u8 list \<Rightarrow> nat \<Rightarrow> thermal \<Rightarrow> (nat \<times> thermal) option" where
  "sendRow 0 bitmap i s = Some (i, s)"
| "sendRow (Suc n) bitmap i s = do {
     s1 \<leftarrow> timeoutWait s;
     if i < length bitmap
     then sendRow n bitmap (i + 1) (streamWrite (bitmap ! i) s1)
     else None
   }"

fun sendRows :: "nat \<Rightarrow> nat \<Rightarrow> nat \<Rightarrow> u8 list \<Rightarrow> nat \<Rightarrow> thermal \<Rightarrow> (nat \<times> thermal) option" where
  "sendRows 0 rbc skip bitmap i s = Some (i, s)"
| "sendRows (Suc y) rbc skip bitmap i s = do {
     (i1, s1) \<leftarrow> sendRow rbc bitmap i s;
     sendRows y rbc skip bitmap (i1 + skip) s1
   }"

partial_function (option) sendChunks ::
  "int \<Rightarrow> int \<Rightarrow> int \<Rightarrow> int \<Rightarrow> int \<Rightarrow> u8 list \<Rightarrow> nat \<Rightarrow> thermal \<Rightarrow> thermal option" where
  "sendChunks rowStart h chunkHeightLimit rowBytes rowBytesClipped bitmap i s =
     (if rowStart < h
      then Option.bind
             (writeBytes [ASCII_DC2, 42,
                 word_of_int (chunkHeightOf h rowStart chunkHeightLimit),
                 word_of_int rowBytesClipped] s)
             (\<lambda>s1. Option.bind
                (sendRows (nat (chunkHeightOf h rowStart chunkHeightLimit))
                   (nat rowBytesClipped) (nat (rowBytes - rowBytesClipped)) bitmap i s1)
                (\<lambda>r. Option.bind
                   (timeoutSet (word_of_int (chunkHeightOf h rowStart chunkHeightLimit) *
                        dotPrintTime (snd r)) (snd r))
                   (\<lambda>s3. sendChunks (rowStart + chunkHeightLimit) h chunkHeightLimit
                            rowBytes rowBytesClipped bitmap (fst r) s3)))
      else Some s)"

definition printBitmap :: "int \<Rightarrow> int \<Rightarrow> u8 list \<Rightarrow> thermal \<Rightarrow> thermal option" where
  "printBitmap w h bitmap s =
     (let rowBytes = rowBytesOf w;
          rowBytesClipped = rowBytesClippedOf rowBytes
      in case chunkHeightLimitOf (dtrEnabled s) (uint (maxChunkHeight s)) rowBytesClipped of
           None \<Rightarrow> None
         | Some chunkHeightLimit \<Rightarrow>
             map_option (\<lambda>s'. s'\<lparr>prevByte := ASCII_LF\<rparr>)
               (sendChunks 0 h chunkHeightLimit rowBytes rowBytesClipped bitmap 0 s))"

text \<open>
  \<^verbatim>\<open>printBitmap(w, h, fromStream)\<close>. The source stream is the list of what its coming
  \<^verbatim>\<open>read()\<close> calls return: \<open>None\<close> for -1 (nothing there yet), \<open>Some b\<close> for a byte;
  after the last entry nothing comes any more, and the loop
  \<^verbatim>\<open>while ((c = fromStream->read()) < 0)\<close> does not return: \<open>None\<close>.
  The functions return what is left of the source stream with the object.
\<close>

fun readBlocking :: "u8 option list \<Rightarrow> (u8 \<times> u8 option list) option" where
  "readBlocking [] = None"
| "readBlocking (None # src) = readBlocking src"
| "readBlocking (Some b # src) = Some (b, src)"

fun discardBytes :: "nat \<Rightarrow> u8 option list \<Rightarrow> u8 option list option" where
  "discardBytes 0 src = Some src"
| "discardBytes (Suc n) src = do { (c, src1) \<leftarrow> readBlocking src; discardBytes n src1 }"

fun recvRow :: "nat \<Rightarrow> u8 option list \<Rightarrow> thermal \<Rightarrow> (u8 option list \<times> thermal) option" where
  "recvRow 0 src s = Some (src, s)"
| "recvRow (Suc n) src s = do {
     (c, src1) \<leftarrow> readBlocking src;
     s1 \<leftarrow> timeoutWait s;
     recvRow n src1 (streamWrite c s1)
   }"

fun recvRows ::
  "nat \<Rightarrow> nat \<Rightarrow> nat \<Rightarrow> u8 option list \<Rightarrow> thermal \<Rightarrow> (u8 option list \<times> thermal) option" where
  "recvRows 0 rbc skip src s = Some (src, s)"
| "recvRows (Suc y) rbc skip src s = do {
     (src1, s1) \<leftarrow> recvRow rbc src s;
     src2 \<leftarrow> discardBytes skip src1;
     recvRows y rbc skip src2 s1
   }"

partial_function (option) recvChunks ::
  "int \<Rightarrow> int \<Rightarrow> int \<Rightarrow> int \<Rightarrow> int \<Rightarrow> u8 option list \<Rightarrow> thermal \<Rightarrow>
     (u8 option list \<times> thermal) option" where
  "recvChunks rowStart h chunkHeightLimit rowBytes rowBytesClipped src s =
     (if rowStart < h
      then Option.bind
             (writeBytes [ASCII_DC2, 42,
                 word_of_int (chunkHeightOf h rowStart chunkHeightLimit),
                 word_of_int rowBytesClipped] s)
             (\<lambda>s1. Option.bind
                (recvRows (nat (chunkHeightOf h rowStart chunkHeightLimit))
                   (nat rowBytesClipped) (nat (rowBytes - rowBytesClipped)) src s1)
                (\<lambda>r. Option.bind
                   (timeoutSet (word_of_int (chunkHeightOf h rowStart chunkHeightLimit) *
                        dotPrintTime (snd r)) (snd r))
                   (\<lambda>s3. recvChunks (rowStart + chunkHeightLimit) h chunkHeightLimit
                            rowBytes rowBytesClipped (fst r) s3)))
      else Some (src, s))"

definition printBitmapStream ::
  "int \<Rightarrow> int \<Rightarrow> u8 option list \<Rightarrow> thermal \<Rightarrow> (u8 option list \<times> thermal) option" where
  "printBitmapStream w h fromStream s =
     (let rowBytes = rowBytesOf w;
          rowBytesClipped = rowBytesClippedOf rowBytes
      in case chunkHeightLimitOf (dtrEnabled s) (uint (maxChunkHeight s)) rowBytesClipped of
           None \<Rightarrow> None
         | Some chunkHeightLimit \<Rightarrow>
             map_option (\<lambda>(src', s'). (src', s'\<lparr>prevByte := ASCII_LF\<rparr>))
               (recvChunks 0 h chunkHeightLimit rowBytes rowBytesClipped fromStream s))"

subsection \<open>Status\<close>

text \<open>
  The loop of \<^verbatim>\<open>getStatus\<close>: up to ten polls of \<^verbatim>\<open>stream->available()\<close>, the first byte
  found is the status, 255 when none is.
\<close>

fun pollStatus :: "nat \<Rightarrow> u8 option list \<Rightarrow> u8 \<times> u8 option list" where
  "pollStatus 0 rxs = (255, rxs)"
| "pollStatus (Suc n) [] = pollStatus n []"
| "pollStatus (Suc n) (None # rxs) = pollStatus n rxs"
| "pollStatus (Suc n) (Some b # rxs) = (b, rxs)"

definition getStatus :: "u8 \<Rightarrow> thermal \<Rightarrow> (int \<times> thermal) option" where
  "getStatus statusPage s = do {
     s1 \<leftarrow> writeCmdBytes 16 4 statusPage True s;
     let (status, rxs) = pollStatus 10 (rx s1);
     Some (uint status, s1\<lparr>rx := rxs\<rparr>)
   }"

definition hasPaper :: "thermal \<Rightarrow> (bool \<times> thermal) option" where
  "hasPaper s = do {
     (r, s1) \<leftarrow> getStatus 4 s;
     let status = (word_of_int r :: u8);
     Some (\<not> (status AND 96 = 96), s1)
   }"

section \<open>Notions used in the statements\<close>

text \<open>
  \<open>settings s\<close> is the object without the four fields of the environment and without
  the deadline: two objects with the same settings differ only in what was sent and
  received, and in timing.
\<close>

definition settings :: "thermal \<Rightarrow> thermal" where
  "settings s = s\<lparr>out := [], rx := [], ticks := [], pin := [], resumeTime := 0\<rparr>"

text \<open>
  A steady clock: a clock that has not wrapped into the upper half of its range, whose
  readings are each at least \<open>X\<close> microseconds after the one before, the first of them
  not before the deadline. On such a clock no wait polls twice, as long as no busy time
  above \<open>X\<close> is set: every \<^verbatim>\<open>timeoutWait\<close> and every \<^verbatim>\<open>timeoutSet\<close> takes one reading.
\<close>

fun spaced :: "nat \<Rightarrow> nat \<Rightarrow> u32 list \<Rightarrow> bool" where
  "spaced X lo [] = True"
| "spaced X lo (t # ts) = (lo \<le> unat t \<and> unat t + X < 2 ^ 31 \<and> spaced X (unat t + X) ts)"

definition steady :: "nat \<Rightarrow> thermal \<Rightarrow> bool" where
  "steady X s = (\<not> dtrEnabled s \<and> spaced X (unat (resumeTime s)) (ticks s))"

text \<open>\<open>tickList a d n\<close>: the \<open>n\<close> readings \<open>a\<close>, \<open>a + d\<close>, \<open>a + 2 d\<close>, ...\<close>

fun tickList :: "nat \<Rightarrow> nat \<Rightarrow> nat \<Rightarrow> u32 list" where
  "tickList a d 0 = []"
| "tickList a d (Suc n) = of_nat a # tickList (a + d) d n"

text \<open>
  An object for the examples: the fields as \<^verbatim>\<open>begin(268)\<close> leaves them when no DTR pin was
  given to the constructor (\<^verbatim>\<open>reset\<close> sets the column, the line metrics and the barcode
  height; \<^verbatim>\<open>begin\<close> the times and the chunk height), font A without any print mode,
  nothing sent or received yet, and the clock readings \<open>ts\<close> to come.
\<close>

definition fresh :: "u32 list \<Rightarrow> thermal" where
  "fresh ts =
     \<lparr>out = [], rx = [], ticks = ts, pin = [], dtrPin = 255, dtrEnabled = False,
      firmware = 268, resumeTime = 0, dotPrintTime = 30000, dotFeedTime = 2100,
      printMode = 0, prevByte = ASCII_LF, column = 0, maxColumn = 32, charWidth = 12,
      charHeight = 24, lineSpacing = 6, barcodeHeight = 50, maxChunkHeight = 255,
      fontData = 0, autoLineHeight = True\<rparr>"

text \<open>
  The bytes a source stream holds, in the order its \<^verbatim>\<open>read()\<close> calls will deliver them.
\<close>

fun avail :: "u8 option list \<Rightarrow> u8 list" where
  "avail [] = []"
| "avail (None # src) = avail src"
| "avail (Some b # src) = b # avail src"

text \<open>
  The longest busy time the text writer can ask for from an object: the byte time
  alone, or with the time of a blank line, or with the time of a text line
  (each as the 32-bit value the writer computes).
\<close>

definition busyBound :: "thermal \<Rightarrow> nat" where
  "busyBound s =
     max (unat (word_of_int BYTE_TIME :: u32))
       (max (unat (word_of_int BYTE_TIME +
                   (ucast (charHeight s) + ucast (lineSpacing s)) * dotFeedTime s))
            (unat (word_of_int BYTE_TIME +
                   (ucast (charHeight s) * dotPrintTime s +
                    ucast (lineSpacing s) * dotFeedTime s))))"

section \<open>Basic facts\<close>

subsection \<open>Settings, waiting and writing\<close>

lemma settings_fields:
  assumes "settings a = settings b"
  shows "dtrPin a = dtrPin b" "dtrEnabled a = dtrEnabled b" "firmware a = firmware b"
    "dotPrintTime a = dotPrintTime b" "dotFeedTime a = dotFeedTime b"
    "printMode a = printMode b" "prevByte a = prevByte b" "column a = column b"
    "maxColumn a = maxColumn b" "charWidth a = charWidth b" "charHeight a = charHeight b"
    "lineSpacing a = lineSpacing b" "barcodeHeight a = barcodeHeight b"
    "maxChunkHeight a = maxChunkHeight b" "fontData a = fontData b"
    "autoLineHeight a = autoLineHeight b"
proof -
  note c = arg_cong [OF assms]
  show "dtrPin a = dtrPin b" using c [of dtrPin] by (simp add: settings_def)
  show "dtrEnabled a = dtrEnabled b" using c [of dtrEnabled] by (simp add: settings_def)
  show "firmware a = firmware b" using c [of firmware] by (simp add: settings_def)
  show "dotPrintTime a = dotPrintTime b" using c [of dotPrintTime] by (simp add: settings_def)
  show "dotFeedTime a = dotFeedTime b" using c [of dotFeedTime] by (simp add: settings_def)
  show "printMode a = printMode b" using c [of printMode] by (simp add: settings_def)
  show "prevByte a = prevByte b" using c [of prevByte] by (simp add: settings_def)
  show "column a = column b" using c [of column] by (simp add: settings_def)
  show "maxColumn a = maxColumn b" using c [of maxColumn] by (simp add: settings_def)
  show "charWidth a = charWidth b" using c [of charWidth] by (simp add: settings_def)
  show "charHeight a = charHeight b" using c [of charHeight] by (simp add: settings_def)
  show "lineSpacing a = lineSpacing b" using c [of lineSpacing] by (simp add: settings_def)
  show "barcodeHeight a = barcodeHeight b" using c [of barcodeHeight] by (simp add: settings_def)
  show "maxChunkHeight a = maxChunkHeight b" using c [of maxChunkHeight] by (simp add: settings_def)
  show "fontData a = fontData b" using c [of fontData] by (simp add: settings_def)
  show "autoLineHeight a = autoLineHeight b" using c [of autoLineHeight] by (simp add: settings_def)
qed

lemma BYTE_TIME_val: "BYTE_TIME = 1146"
  by (simp add: BYTE_TIME_def byteTime_def BAUDRATE_def)

lemma sint_diff_nonneg:
  fixes t r :: u32
  assumes "unat r \<le> unat t" "unat t < 2 ^ 31"
  shows "\<not> sint (t - r) < 0"
proof -
  have le: "r \<le> t" using assms(1) by (simp add: word_le_nat_alt)
  have "unat (t - r) = unat t - unat r" by (rule unat_sub [OF le])
  then have lt: "unat (t - r) < 2 ^ 31" using assms by simp
  have "bit (t - r) 31 = bit (unat (t - r)) 31"
    by (simp add: bit_unsigned_iff)
  also have "\<dots> = False" using lt by (simp add: bit_iff_odd)
  finally show ?thesis using bit_last_iff [of "t - r"] by simp
qed

lemma unat_add_small:
  fixes t x :: u32
  assumes "unat t + unat x < 2 ^ 32"
  shows "unat (t + x) = unat t + unat x"
  using assms unat_add_lem [of t x] by simp

lemma settings_upd:
  "settings (s\<lparr>out := o'\<rparr>) = settings s"
  "settings (s\<lparr>rx := r'\<rparr>) = settings s"
  "settings (s\<lparr>ticks := t'\<rparr>) = settings s"
  "settings (s\<lparr>pin := p'\<rparr>) = settings s"
  "settings (s\<lparr>resumeTime := d'\<rparr>) = settings s"
  by (simp_all add: settings_def)

lemma timeoutSet_dtr: "dtrEnabled s \<Longrightarrow> timeoutSet x s = Some s"
  by (simp add: timeoutSet_def)

lemma timeoutSet_timing:
  "\<not> dtrEnabled s \<Longrightarrow> ticks s = t # ts \<Longrightarrow>
   timeoutSet x s = Some (s\<lparr>ticks := ts, resumeTime := t + x\<rparr>)"
  by (simp add: timeoutSet_def micros_def)

lemma timeoutSet_cases:
  assumes "timeoutSet x s = Some s'"
  shows "(dtrEnabled s \<and> s' = s) \<or>
         (\<not> dtrEnabled s \<and> (\<exists>now ts. ticks s = now # ts \<and> s' = s\<lparr>ticks := ts, resumeTime := now + x\<rparr>))"
  using assms by (cases "ticks s") (auto simp: timeoutSet_def micros_def split: if_splits)

lemma timeoutSet_frame:
  assumes "timeoutSet x s = Some s'"
  shows "settings s' = settings s" "out s' = out s" "rx s' = rx s" "pin s' = pin s"
  using timeoutSet_cases [OF assms] by (auto simp: settings_upd)

lemma timeoutSet_deadline:
  assumes "timeoutSet x s = Some s'" "\<not> dtrEnabled s"
  shows "\<exists>now. ticks s = now # ticks s' \<and> resumeTime s' = now + x"
  using timeoutSet_cases [OF assms(1)] assms(2) by auto

lemma waitClock_suffix: "waitClock r ts = Some ts' \<Longrightarrow> \<exists>pre. ts = pre @ ts' \<and> pre \<noteq> []"
proof (induction ts)
  case Nil
  then show ?case by simp
next
  case (Cons t ts)
  show ?case
  proof (cases "sint (t - r) < 0")
    case True
    with Cons obtain pre where "ts = pre @ ts'" by auto
    then have "t # ts = (t # pre) @ ts'" by simp
    then show ?thesis by blast
  next
    case False
    with Cons.prems have "t # ts = [t] @ ts'" by simp
    then show ?thesis by blast
  qed
qed

lemma timeoutWait_cases:
  assumes "timeoutWait s = Some s'"
  shows "(dtrEnabled s \<and> (\<exists>ps. waitPin (pin s) = Some ps \<and> s' = s\<lparr>pin := ps\<rparr>)) \<or>
         (\<not> dtrEnabled s \<and> (\<exists>ts. waitClock (resumeTime s) (ticks s) = Some ts \<and> s' = s\<lparr>ticks := ts\<rparr>))"
  using assms by (auto simp: timeoutWait_def split: if_splits)

lemma timeoutWait_frame:
  assumes "timeoutWait s = Some s'"
  shows "settings s' = settings s" "out s' = out s" "rx s' = rx s"
    "resumeTime s' = resumeTime s"
  using timeoutWait_cases [OF assms] by (auto simp: settings_upd)

lemma timeoutWait_ticks:
  assumes "timeoutWait s = Some s'" "\<not> dtrEnabled s"
  shows "\<exists>pre. ticks s = pre @ ticks s'"
  using timeoutWait_cases [OF assms(1)] assms(2) by (auto dest: waitClock_suffix)

lemma fold_streamWrite: "fold streamWrite bs s = s\<lparr>out := out s @ bs\<rparr>"
  by (induction bs arbitrary: s) (simp_all add: streamWrite_def)

lemma writeBytes_split:
  assumes "writeBytes bs s = Some s'"
  obtains s1 where "timeoutWait s = Some s1"
    "timeoutSet (word_of_int (int (length bs) * BYTE_TIME)) (s1\<lparr>out := out s1 @ bs\<rparr>) = Some s'"
  using assms by (cases "timeoutWait s") (simp_all add: writeBytes_def fold_streamWrite)

lemma writeBytes_frame:
  assumes "writeBytes bs s = Some s'"
  shows "settings s' = settings s" "out s' = out s @ bs" "rx s' = rx s"
proof -
  from assms obtain s1 where w: "timeoutWait s = Some s1"
    and t: "timeoutSet (word_of_int (int (length bs) * BYTE_TIME)) (s1\<lparr>out := out s1 @ bs\<rparr>) = Some s'"
    by (rule writeBytes_split)
  note fw = timeoutWait_frame [OF w] and ft = timeoutSet_frame [OF t]
  show "settings s' = settings s" using fw(1) ft(1) by (simp add: settings_upd)
  show "out s' = out s @ bs" using fw(2) ft(2) by simp
  show "rx s' = rx s" using fw(3) ft(3) by simp
qed

lemma writeBytes_deadline:
  assumes "writeBytes bs s = Some s'" "\<not> dtrEnabled s"
  shows "\<exists>pre now. ticks s = pre @ now # ticks s' \<and>
           resumeTime s' = now + word_of_int (int (length bs) * BYTE_TIME)"
proof -
  from assms(1) obtain s1 where w: "timeoutWait s = Some s1"
    and t: "timeoutSet (word_of_int (int (length bs) * BYTE_TIME)) (s1\<lparr>out := out s1 @ bs\<rparr>) = Some s'"
    by (rule writeBytes_split)
  from settings_fields(2) [OF timeoutWait_frame(1) [OF w]] assms(2)
  have nd: "\<not> dtrEnabled (s1\<lparr>out := out s1 @ bs\<rparr>)" by simp
  from timeoutWait_ticks [OF w assms(2)] obtain pre where p: "ticks s = pre @ ticks s1" by blast
  from timeoutSet_deadline [OF t nd] obtain now where
    "ticks s1 = now # ticks s'" "resumeTime s' = now + word_of_int (int (length bs) * BYTE_TIME)"
    by auto
  with p show ?thesis by auto
qed

lemma writeBytes_dtr_deadline:
  assumes "writeBytes bs s = Some s'" "dtrEnabled s"
  shows "resumeTime s' = resumeTime s" "ticks s' = ticks s"
proof -
  from assms(1) obtain s1 where w: "timeoutWait s = Some s1"
    and t: "timeoutSet (word_of_int (int (length bs) * BYTE_TIME)) (s1\<lparr>out := out s1 @ bs\<rparr>) = Some s'"
    by (rule writeBytes_split)
  from timeoutWait_cases [OF w] assms(2) obtain ps where s1: "s1 = s\<lparr>pin := ps\<rparr>" by auto
  from timeoutSet_cases [OF t] s1 assms(2) have "s' = s1\<lparr>out := out s1 @ bs\<rparr>" by auto
  with s1 show "resumeTime s' = resumeTime s" "ticks s' = ticks s" by simp_all
qed

subsection \<open>On a steady clock\<close>

lemma spaced_mono: "spaced X lo ts \<Longrightarrow> lo' \<le> lo \<Longrightarrow> spaced X lo' ts"
  by (cases ts) auto

lemma steady_wait:
  assumes "steady X s" "ticks s = t # ts"
  shows "timeoutWait s = Some (s\<lparr>ticks := ts\<rparr>)" "steady X (s\<lparr>ticks := ts\<rparr>)"
proof -
  from assms have nd: "\<not> dtrEnabled s" and lo: "unat (resumeTime s) \<le> unat t"
    and hi: "unat t + X < 2 ^ 31" and sp: "spaced X (unat t + X) ts"
    by (simp_all add: steady_def)
  from hi have "unat t < 2 ^ 31" by simp
  from sint_diff_nonneg [OF lo this] show "timeoutWait s = Some (s\<lparr>ticks := ts\<rparr>)"
    using nd assms(2) by (simp add: timeoutWait_def)
  from spaced_mono [OF sp, of "unat (resumeTime s)"] lo nd
  show "steady X (s\<lparr>ticks := ts\<rparr>)" by (simp add: steady_def)
qed

lemma steady_set:
  assumes "steady X s" "ticks s = t # ts" "unat x \<le> X"
  shows "timeoutSet x s = Some (s\<lparr>ticks := ts, resumeTime := t + x\<rparr>)"
    "steady X (s\<lparr>ticks := ts, resumeTime := t + x\<rparr>)"
proof -
  from assms have nd: "\<not> dtrEnabled s"
    and hi: "unat t + X < 2 ^ 31" and sp: "spaced X (unat t + X) ts"
    by (simp_all add: steady_def)
  show "timeoutSet x s = Some (s\<lparr>ticks := ts, resumeTime := t + x\<rparr>)"
    using nd assms(2) by (rule timeoutSet_timing)
  have "unat t + unat x < 2 ^ 32" using hi assms(3) by simp
  then have "unat (t + x) = unat t + unat x" by (rule unat_add_small)
  then have "unat (t + x) \<le> unat t + X" using assms(3) by simp
  from spaced_mono [OF sp this] nd
  show "steady X (s\<lparr>ticks := ts, resumeTime := t + x\<rparr>)" by (simp add: steady_def)
qed

lemma steady_out: "steady X (s\<lparr>out := b\<rparr>) = steady X s"
  by (simp add: steady_def)

lemma unat_bytes: "unat (word_of_int (int n * BYTE_TIME) :: u32) \<le> n * 1146"
proof -
  have "(word_of_int (int n * BYTE_TIME) :: u32) = of_nat (n * 1146)"
    by (simp add: BYTE_TIME_val)
  moreover have "unat (of_nat (n * 1146) :: u32) \<le> n * 1146"
    by (simp only: unat_of_nat) (rule mod_less_eq_dividend)
  ultimately show ?thesis by simp
qed

lemma steady_writeBytes:
  assumes "steady X s" "ticks s = t1 # t2 # ts" "length bs * 1146 \<le> X"
  shows "writeBytes bs s =
           Some (s\<lparr>out := out s @ bs, ticks := ts,
                   resumeTime := t2 + word_of_int (int (length bs) * BYTE_TIME)\<rparr>)"
    "steady X (s\<lparr>out := out s @ bs, ticks := ts,
                   resumeTime := t2 + word_of_int (int (length bs) * BYTE_TIME)\<rparr>)"
proof -
  let ?x = "word_of_int (int (length bs) * BYTE_TIME) :: u32"
  let ?s1 = "s\<lparr>ticks := t2 # ts\<rparr>"
  let ?s2 = "?s1\<lparr>out := out ?s1 @ bs\<rparr>"
  have w: "timeoutWait s = Some ?s1" and st1: "steady X ?s1"
    using steady_wait [OF assms(1,2)] by simp_all
  have st2: "steady X ?s2" using st1 by (simp add: steady_out)
  have x: "unat ?x \<le> X" using unat_bytes [of "length bs"] assms(3) by simp
  have tk: "ticks ?s2 = t2 # ts" by simp
  note ss = steady_set [OF st2 tk x]
  show "writeBytes bs s =
           Some (s\<lparr>out := out s @ bs, ticks := ts,
                   resumeTime := t2 + word_of_int (int (length bs) * BYTE_TIME)\<rparr>)"
    using w ss(1) by (simp add: writeBytes_def fold_streamWrite)
  show "steady X (s\<lparr>out := out s @ bs, ticks := ts,
                   resumeTime := t2 + word_of_int (int (length bs) * BYTE_TIME)\<rparr>)"
    using ss(2) by simp
qed

lemma writeCmdBytes_deadline:
  assumes "writeCmdBytes a b c d s = Some s'" "\<not> dtrEnabled s"
  shows "\<exists>pre now. ticks s = pre @ now # ticks s' \<and>
           resumeTime s' = now + word_of_int (3 * BYTE_TIME)"
proof -
  from assms(1) obtain s1 where w: "(if \<not> d then timeoutWait s else Some s) = Some s1"
    and t: "timeoutSet (word_of_int (3 * BYTE_TIME))
              (streamWrite c (streamWrite b (streamWrite a s1))) = Some s'"
    by (cases "if \<not> d then timeoutWait s else Some s") (simp_all add: writeCmdBytes_def)
  have "\<not> dtrEnabled s1 \<and> (\<exists>pre. ticks s = pre @ ticks s1)"
  proof (cases d)
    case True
    with w show ?thesis using assms(2) by simp
  next
    case False
    with w have w': "timeoutWait s = Some s1" by simp
    from settings_fields(2) [OF timeoutWait_frame(1) [OF w']] timeoutWait_ticks [OF w' assms(2)]
      assms(2) show ?thesis by simp
  qed
  then obtain pre where nd: "\<not> dtrEnabled (streamWrite c (streamWrite b (streamWrite a s1)))"
    and p: "ticks s = pre @ ticks (streamWrite c (streamWrite b (streamWrite a s1)))"
    by (auto simp: streamWrite_def)
  from timeoutSet_deadline [OF t nd] p show ?thesis by auto
qed

subsection \<open>Character metrics\<close>

lemma adjustCharFields_env:
  "out (adjustCharFields s) = out s" "rx (adjustCharFields s) = rx s"
  "ticks (adjustCharFields s) = ticks s" "pin (adjustCharFields s) = pin s"
  "resumeTime (adjustCharFields s) = resumeTime s"
  "dtrEnabled (adjustCharFields s) = dtrEnabled s"
  "autoLineHeight (adjustCharFields s) = autoLineHeight s"
  "lineSpacing (adjustCharFields s) = lineSpacing s"
  "printMode (adjustCharFields s) = printMode s"
  "column (adjustCharFields s) = column s"
  "prevByte (adjustCharFields s) = prevByte s"
  "firmware (adjustCharFields s) = firmware s"
  "dotPrintTime (adjustCharFields s) = dotPrintTime s"
  "dotFeedTime (adjustCharFields s) = dotFeedTime s"
  "maxChunkHeight (adjustCharFields s) = maxChunkHeight s"
  "barcodeHeight (adjustCharFields s) = barcodeHeight s"
  by (simp_all add: adjustCharFields_def Let_def)

lemma steady_adjustCharFields: "steady X (adjustCharFields s) = steady X s"
  by (simp add: steady_def adjustCharFields_env)

lemma adjustCharFields_width:
  "charWidth (adjustCharFields s) =
     (let f = fontData s AND 7;
          bw = (if f = 1 then 9 else if f = 2 then 9 else if f = 3 then 8
                else if f = 4 then 16 else 12)
      in if printMode s AND 32 \<noteq> 0 then 2 * bw else bw)"
  by (simp add: adjustCharFields_def Let_def)

lemma adjustCharFields_height:
  "charHeight (adjustCharFields s) =
     (let f = fontData s AND 7;
          bh = (if f = 1 then 24 else if f = 2 then 17 else if f = 3 then 16
                else if f = 4 then 16 else 24)
      in if printMode s AND 16 \<noteq> 0 then 2 * bh else bh)"
  by (simp add: adjustCharFields_def Let_def)

lemma adjustCharFields_maxColumn:
  "uint (maxColumn (adjustCharFields s)) = 384 div uint (charWidth (adjustCharFields s))"
  by (simp add: adjustCharFields_def Let_def)

lemma adjustCharValues_frame:
  assumes "adjustCharValues s = Some s'"
  shows "settings s' = settings (adjustCharFields s)"
    "\<exists>cmds. out s' = out s @ cmds" "rx s' = rx s"
proof -
  let ?a = "adjustCharFields s"
  from assms obtain s6 s7 where
    w1: "writeBytes [27, 77, fontData s AND 7, 12] ?a = Some s6" and
    w2: "writeBytes [29, 33, drop_bit 3 (fontStyleOf (printMode s)), 12] s6 = Some s7" and
    w3: "(if autoLineHeight s7 then writeBytes [27, 51, charHeight s7 + lineSpacing s7] s7
          else Some s7) = Some s'"
    by (auto simp: adjustCharValues_def Let_def split: bind_splits)
  note f1 = writeBytes_frame [OF w1] and f2 = writeBytes_frame [OF w2]
  have f3: "settings s' = settings s7 \<and> (\<exists>c. out s' = out s7 @ c) \<and> rx s' = rx s7"
  proof (cases "autoLineHeight s7")
    case True
    with w3 have "writeBytes [27, 51, charHeight s7 + lineSpacing s7] s7 = Some s'" by simp
    from writeBytes_frame [OF this] show ?thesis by simp
  next
    case False
    with w3 show ?thesis by simp
  qed
  show "settings s' = settings ?a" using f1(1) f2(1) f3 by simp
  show "\<exists>cmds. out s' = out s @ cmds" using f1(2) f2(2) f3 by (auto simp: adjustCharFields_env)
  show "rx s' = rx s" using f1(3) f2(3) f3 by (simp add: adjustCharFields_env)
qed

lemma steady_writeBytes_ex:
  assumes "steady X s" "2 \<le> length (ticks s)" "length bs * 1146 \<le> X"
  shows "\<exists>s'. writeBytes bs s = Some s' \<and> steady X s' \<and> ticks s' = drop 2 (ticks s)"
proof -
  from assms(2) obtain t1 t2 ts where tk: "ticks s = t1 # t2 # ts"
    by (cases "ticks s"; cases "tl (ticks s)") auto
  from steady_writeBytes [OF assms(1) tk assms(3)] tk show ?thesis by simp
qed

lemma steady_adjustCharValues:
  assumes "steady X s" "6 \<le> length (ticks s)" "4584 \<le> X"
  shows "\<exists>s' k. adjustCharValues s = Some s' \<and> steady X s' \<and>
           ticks s' = drop k (ticks s) \<and> k \<le> 6"
proof -
  let ?a = "adjustCharFields s"
  have a: "steady X ?a" "2 \<le> length (ticks ?a)"
    using assms by (simp_all add: steady_adjustCharFields adjustCharFields_env)
  from steady_writeBytes_ex [OF a, of "[27, 77, fontData s AND 7, 12]"] assms(3)
  obtain s6 where w1: "writeBytes [27, 77, fontData s AND 7, 12] ?a = Some s6"
    and st6: "steady X s6" and tk6: "ticks s6 = drop 2 (ticks s)"
    by (auto simp: adjustCharFields_env)
  have l6: "2 \<le> length (ticks s6)" using tk6 assms(2) by simp
  from steady_writeBytes_ex [OF st6 l6, of "[29, 33, drop_bit 3 (fontStyleOf (printMode s)), 12]"]
    assms(3)
  obtain s7 where w2: "writeBytes [29, 33, drop_bit 3 (fontStyleOf (printMode s)), 12] s6 = Some s7"
    and st7: "steady X s7" and tk7: "ticks s7 = drop 4 (ticks s)"
    by (auto simp: tk6)
  show ?thesis
  proof (cases "autoLineHeight s7")
    case True
    have l7: "2 \<le> length (ticks s7)" using tk7 assms(2) by simp
    from steady_writeBytes_ex [OF st7 l7, of "[27, 51, charHeight s7 + lineSpacing s7]"] assms(3)
    obtain s8 where w3: "writeBytes [27, 51, charHeight s7 + lineSpacing s7] s7 = Some s8"
      and st8: "steady X s8" and tk8: "ticks s8 = drop 6 (ticks s)"
      by (auto simp: tk7)
    have "adjustCharValues s = Some s8"
      using w1 w2 w3 True by (simp add: adjustCharValues_def Let_def)
    with st8 tk8 show ?thesis by auto
  next
    case False
    have "adjustCharValues s = Some s7"
      using w1 w2 False by (simp add: adjustCharValues_def Let_def)
    with st7 tk7 show ?thesis by (intro exI [of _ s7] exI [of _ 4]) simp
  qed
qed

lemma setFont_font:
  "setFont font s = adjustCharValues (s\<lparr>fontData := (fontData s AND 248) OR
      (if 65 \<le> font then (if 69 < toupper font then 0 else toupper font - 65)
       else if 4 < font then 0 else font)\<rparr>)"
proof -
  have "toupper font < 65 \<Longrightarrow> 65 \<le> font \<Longrightarrow> False"
    by (auto simp: toupper_def split: if_splits) (unat_arith | uint_arith)+
  then show ?thesis
    by (auto simp: setFont_def Let_def)
qed

lemma font_bits: "((fd AND 248) OR f) AND 7 = f AND (7::u8)"
proof -
  have "((fd AND 248) OR f) AND 7 = (fd AND (248 AND 7)) OR (f AND 7)"
    by (simp only: bit.conj_disj_distrib2 and.assoc)
  then show ?thesis by simp
qed

subsection \<open>The example clock\<close>

lemma length_tickList: "length (tickList a d n) = n"
  by (induction n arbitrary: a) simp_all

lemma spaced_tickList:
  "lo \<le> a \<Longrightarrow> X \<le> d \<Longrightarrow> a + n * d < 2 ^ 31 \<Longrightarrow> spaced X lo (tickList a d n)"
proof (induction n arbitrary: a lo)
  case 0
  then show ?case by simp
next
  case (Suc n)
  from Suc.prems have b: "a + d + n * d < 2 ^ 31" by (simp add: algebra_simps)
  then have "a < 2 ^ 32" by simp
  then have u: "unat (of_nat a :: u32) = a" by (simp add: unat_of_nat)
  from Suc.prems have "a + X \<le> a + d" by simp
  from Suc.IH [OF this Suc.prems(2) b] have "spaced X (a + X) (tickList (a + d) d n)" .
  moreover have "a + X < 2 ^ 31" using b Suc.prems(2) by simp
  ultimately show ?case using u Suc.prems(1) by simp
qed

lemma steady_fresh:
  "X \<le> d \<Longrightarrow> a + n * d < 2 ^ 31 \<Longrightarrow> steady X (fresh (tickList a d n))"
  by (simp add: steady_def fresh_def spaced_tickList)

lemma ticks_fresh: "ticks (fresh ts) = ts"
  by (simp add: fresh_def)

subsection \<open>Feeding and line height\<close>

lemma timeoutSet_out:
  "timeoutSet x (s\<lparr>out := b\<rparr>) = map_option (\<lambda>s'. s'\<lparr>out := b\<rparr>) (timeoutSet x s)"
  by (cases "ticks s") (simp_all add: timeoutSet_def micros_def)

lemma writeBytes_other_bytes:
  assumes "writeBytes bs s = Some s'" "length cs = length bs"
  shows "writeBytes cs s = Some (s'\<lparr>out := out s @ cs\<rparr>)"
proof -
  from assms(1) obtain s1 where w: "timeoutWait s = Some s1"
    and t: "timeoutSet (word_of_int (int (length bs) * BYTE_TIME)) (s1\<lparr>out := out s1 @ bs\<rparr>) = Some s'"
    by (rule writeBytes_split)
  have o: "out s1 = out s" by (rule timeoutWait_frame(2) [OF w])
  from t obtain s2 where t2: "timeoutSet (word_of_int (int (length bs) * BYTE_TIME)) s1 = Some s2"
    and e: "s' = s2\<lparr>out := out s @ bs\<rparr>"
    by (auto simp: timeoutSet_out o)
  show ?thesis
    using w t2 e assms(2) by (simp add: writeBytes_def fold_streamWrite timeoutSet_out o)
qed

lemma feed_recent_split:
  assumes "feed x s = Some s'" "264 \<le> firmware s"
  obtains s1 s2 where "writeBytes [27, 100, x] s = Some s1"
    "timeoutSet (dotFeedTime s * ucast (charHeight s)) s1 = Some s2"
    "s' = s2\<lparr>prevByte := 10, column := 0\<rparr>"
proof -
  from assms obtain s1 s2 where w: "writeBytes [27, 100, x] s = Some s1"
    and t: "timeoutSet (dotFeedTime s1 * ucast (charHeight s1)) s1 = Some s2"
    and e: "s' = s2\<lparr>prevByte := 10, column := 0\<rparr>"
    by (auto simp: feed_def split: bind_splits)
  note f = settings_fields [OF writeBytes_frame(1) [OF w]]
  from t f have "timeoutSet (dotFeedTime s * ucast (charHeight s)) s1 = Some s2" by simp
  from that [OF w this e] show ?thesis .
qed

lemma setLineHeight_split:
  assumes "setLineHeight val s = Some s'"
  obtains s1 where "adjustCharValues (s\<lparr>autoLineHeight := False\<rparr>) = Some s1"
    "writeBytes [27, 51, word_of_int (max val 20)]
       (s1\<lparr>lineSpacing := word_of_int (max val 20 - 20)\<rparr>) = Some s'"
proof -
  have m: "(if val < 20 then 20 else val) = max val 20" by simp
  from assms obtain s1 where "adjustCharValues (s\<lparr>autoLineHeight := False\<rparr>) = Some s1"
    "writeBytes [27, 51, word_of_int (max val 20)]
       (s1\<lparr>lineSpacing := word_of_int (max val 20 - 20)\<rparr>) = Some s'"
    unfolding setLineHeight_def autoLineHeightOff_def Let_def m
    by (auto split: bind_splits)
  then show ?thesis by (rule that)
qed

lemma setLineHeight_result:
  assumes "setLineHeight val s = Some s'"
  shows "\<not> autoLineHeight s'" "lineSpacing s' = word_of_int (max val 20 - 20)"
    "\<exists>cmds. out s' = out s @ cmds @ [27, 51, word_of_int (max val 20)]"
proof -
  from assms obtain s1 where a: "adjustCharValues (s\<lparr>autoLineHeight := False\<rparr>) = Some s1"
    and w: "writeBytes [27, 51, word_of_int (max val 20)]
       (s1\<lparr>lineSpacing := word_of_int (max val 20 - 20)\<rparr>) = Some s'"
    by (rule setLineHeight_split)
  note fa = adjustCharValues_frame [OF a] and fw = writeBytes_frame [OF w]
  note e1 = settings_fields [OF fa(1)] and e2 = settings_fields [OF fw(1)]
  show "\<not> autoLineHeight s'" using e2(16) e1(16) by (simp add: adjustCharFields_env)
  show "lineSpacing s' = word_of_int (max val 20 - 20)" using e2(12) by simp
  from fa(2) obtain cmds where "out s1 = out s @ cmds" by auto
  with fw(2) show "\<exists>cmds. out s' = out s @ cmds @ [27, 51, word_of_int (max val 20)]" by simp
qed

lemma steady_setLineHeight:
  assumes "steady X s" "6 \<le> length (ticks s)" "4584 \<le> X"
  shows "\<exists>s'. setLineHeight val s = Some s'"
proof -
  let ?s0 = "s\<lparr>autoLineHeight := False\<rparr>"
  have st0: "steady X ?s0" "2 \<le> length (ticks (adjustCharFields ?s0))"
    using assms by (simp_all add: steady_def adjustCharFields_env)
  have sta: "steady X (adjustCharFields ?s0)" using st0(1) by (simp add: steady_adjustCharFields)
  from steady_writeBytes_ex [OF sta st0(2), of "[27, 77, fontData ?s0 AND 7, 12]"] assms(3)
  obtain s6 where w1: "writeBytes [27, 77, fontData ?s0 AND 7, 12] (adjustCharFields ?s0) = Some s6"
    and st6: "steady X s6" and tk6: "ticks s6 = drop 2 (ticks s)"
    by (auto simp: adjustCharFields_env)
  have l6: "2 \<le> length (ticks s6)" using tk6 assms(2) by simp
  from steady_writeBytes_ex [OF st6 l6, of "[29, 33, drop_bit 3 (fontStyleOf (printMode ?s0)), 12]"]
    assms(3)
  obtain s7 where w2: "writeBytes [29, 33, drop_bit 3 (fontStyleOf (printMode ?s0)), 12] s6 = Some s7"
    and st7: "steady X s7" and tk7: "ticks s7 = drop 4 (ticks s)"
    by (auto simp: tk6)
  have "autoLineHeight s7 = autoLineHeight (adjustCharFields ?s0)"
    using settings_fields(16) [OF writeBytes_frame(1) [OF w1]]
      settings_fields(16) [OF writeBytes_frame(1) [OF w2]] by simp
  then have na: "\<not> autoLineHeight s7" by (simp add: adjustCharFields_env)
  have a: "adjustCharValues ?s0 = Some s7"
    using w1 w2 na by (simp add: adjustCharValues_def Let_def)
  let ?s8 = "s7\<lparr>lineSpacing := word_of_int (max val 20 - 20)\<rparr>"
  have st8: "steady X ?s8" "2 \<le> length (ticks ?s8)"
    using st7 tk7 assms(2) by (simp_all add: steady_def)
  from steady_writeBytes_ex [OF st8, of "[27, 51, word_of_int (max val 20)]"] assms(3)
  obtain s9 where w3: "writeBytes [27, 51, word_of_int (max val 20)] ?s8 = Some s9" by auto
  have m: "(if val < 20 then 20 else val) = max val 20" by simp
  have "setLineHeight val s = Some s9"
    unfolding setLineHeight_def autoLineHeightOff_def Let_def m using a w3 by simp
  then show ?thesis by blast
qed

subsection \<open>Status\<close>

lemma bit96: "n < 8 \<Longrightarrow> bit (96::u8) n = (n = 5 \<or> n = 6)"
proof -
  assume "n < 8"
  then have "n \<in> {5, 6} \<or> n \<in> {0, 1, 2, 3, 4, 7}" by auto
  then show ?thesis by auto
qed

lemma and96: "((x::u8) AND 96 = 96) = (bit x 5 \<and> bit x 6)"
proof
  assume a: "x AND 96 = 96"
  have "bit (x AND 96) 5" "bit (x AND 96) 6" unfolding a by simp_all
  then show "bit x 5 \<and> bit x 6" by (simp add: bit_and_iff)
next
  assume b: "bit x 5 \<and> bit x 6"
  show "x AND 96 = 96"
  proof (rule bit_word_eqI)
    fix n assume "n < LENGTH(8)"
    then have "n < 8" by simp
    from bit96 [OF this] b show "bit (x AND 96) n = bit (96::u8) n"
      by (auto simp: bit_and_iff)
  qed
qed

lemma writeCmdBytes_result:
  assumes "writeCmdBytes a b c True s = Some s'"
  shows "settings s' = settings s" "out s' = out s @ [a, b, c]" "rx s' = rx s"
proof -
  from assms have t: "timeoutSet (word_of_int (3 * BYTE_TIME)) (s\<lparr>out := out s @ [a, b, c]\<rparr>) = Some s'"
    by (simp add: writeCmdBytes_def streamWrite_def)
  from timeoutSet_frame [OF t]
  show "settings s' = settings s" "out s' = out s @ [a, b, c]" "rx s' = rx s"
    by (simp_all add: settings_upd)
qed

lemma writeCmdBytes_returns:
  assumes "dtrEnabled s \<or> ticks s \<noteq> []"
  shows "\<exists>s'. writeCmdBytes a b c True s = Some s'"
  using assms
  by (cases "ticks s") (auto simp: writeCmdBytes_def timeoutSet_def micros_def streamWrite_def)

lemma hasPaper_result:
  assumes "hasPaper s = Some (b, s')"
  shows "b = (fst (pollStatus 10 (rx s)) AND 96 \<noteq> 96)" "out s' = out s @ [16, 4, 4]"
    "rx s' = snd (pollStatus 10 (rx s))" "settings s' = settings s"
proof -
  from assms obtain s1 where w: "writeCmdBytes 16 4 4 True s = Some s1"
    and e: "b = (fst (pollStatus 10 (rx s1)) AND 96 \<noteq> 96)"
       "s' = s1\<lparr>rx := snd (pollStatus 10 (rx s1))\<rparr>"
    by (auto simp: hasPaper_def getStatus_def Let_def split: bind_splits prod.splits)
  note f = writeCmdBytes_result [OF w]
  show "b = (fst (pollStatus 10 (rx s)) AND 96 \<noteq> 96)" using e f by simp
  show "out s' = out s @ [16, 4, 4]" using e f by simp
  show "rx s' = snd (pollStatus 10 (rx s))" using e f by simp
  show "settings s' = settings s" using e f by (simp add: settings_upd)
qed

lemma hasPaper_returns:
  assumes "dtrEnabled s \<or> ticks s \<noteq> []"
  shows "\<exists>b s'. hasPaper s = Some (b, s')"
proof -
  from writeCmdBytes_returns [OF assms] obtain s1 where "writeCmdBytes 16 4 4 True s = Some s1"
    by blast
  then show ?thesis
    by (simp add: hasPaper_def getStatus_def Let_def split: prod.splits)
qed

subsection \<open>The text writer\<close>

lemma write_byte_cr: "write_byte 13 s = Some s"
  by (simp add: write_byte_def)

lemma write_byte_split:
  assumes "write_byte c s = Some s'" "c \<noteq> 13"
  obtains s1 d s4 where "timeoutWait s = Some s1"
    "timeoutSet d
       (if c = 10 \<or> column s = maxColumn s
        then s1\<lparr>out := out s1 @ [c], column := 0\<rparr>
        else s1\<lparr>out := out s1 @ [c], column := column s + 1\<rparr>) = Some s4"
    "s' = s4\<lparr>prevByte := (if c = 10 \<or> column s = maxColumn s then 10 else c)\<rparr>"
proof -
  from assms obtain s1 where w: "timeoutWait s = Some s1"
    by (cases "timeoutWait s") (simp_all add: write_byte_def)
  note f = settings_fields [OF timeoutWait_frame(1) [OF w]]
  from assms w f(8,9) obtain d s4 where
    "timeoutSet d
       (if c = 10 \<or> column s = maxColumn s
        then s1\<lparr>out := out s1 @ [c], column := 0\<rparr>
        else s1\<lparr>out := out s1 @ [c], column := column s + 1\<rparr>) = Some s4"
    "s' = s4\<lparr>prevByte := (if c = 10 \<or> column s = maxColumn s then 10 else c)\<rparr>"
    by (auto simp: write_byte_def Let_def streamWrite_def split: bind_splits if_splits)
  with w show ?thesis by (rule that)
qed

lemma write_byte_result:
  assumes "write_byte c s = Some s'" "c \<noteq> 13"
  shows "column s' = (if c = 10 \<or> column s = maxColumn s then 0 else column s + 1)"
    "maxColumn s' = maxColumn s"
    "prevByte s' = (if c = 10 \<or> column s = maxColumn s then 10 else c)"
    "out s' = out s @ [c]"
proof -
  from assms obtain s1 d s4 where w: "timeoutWait s = Some s1"
    and t: "timeoutSet d
       (if c = 10 \<or> column s = maxColumn s
        then s1\<lparr>out := out s1 @ [c], column := 0\<rparr>
        else s1\<lparr>out := out s1 @ [c], column := column s + 1\<rparr>) = Some s4"
    and e: "s' = s4\<lparr>prevByte := (if c = 10 \<or> column s = maxColumn s then 10 else c)\<rparr>"
    by (rule write_byte_split)
  note fw = timeoutWait_frame [OF w] and ft = timeoutSet_frame [OF t]
  note e1 = settings_fields [OF fw(1)] and e2 = settings_fields [OF ft(1)]
  show "column s' = (if c = 10 \<or> column s = maxColumn s then 0 else column s + 1)"
    using e e2(8) by (simp split: if_splits)
  show "maxColumn s' = maxColumn s" using e e2(9) e1(9) by (simp split: if_splits)
  show "prevByte s' = (if c = 10 \<or> column s = maxColumn s then 10 else c)" using e by simp
  show "out s' = out s @ [c]" using e ft(2) fw(2) by (simp split: if_splits)
qed

lemma column_step:
  fixes col mx :: u8
  assumes "col \<le> mx"
  shows "unat (if col = mx then 0 else col + 1) = (unat col + 1) mod (unat mx + 1)"
    "(if col = mx then 0 else col + 1) \<le> mx"
proof -
  show "unat (if col = mx then 0 else col + 1) = (unat col + 1) mod (unat mx + 1)"
  proof (cases "col = mx")
    case True
    then show ?thesis by simp
  next
    case False
    with assms have lt: "unat col < unat mx" by (simp add: word_le_nat_alt word_unat_eq_iff)
    have "unat mx < 2 ^ LENGTH(8)" by (rule unsigned_less)
    then have "unat mx < 256" by simp
    with lt have "unat col + unat (1::u8) < 2 ^ LENGTH(8)" by simp
    then have "unat (col + 1) = unat col + 1" using unat_add_lem [of col 1] by simp
    with lt False show ?thesis by simp
  qed
  show "(if col = mx then 0 else col + 1) \<le> mx"
  proof (cases "col = mx")
    case True
    then show ?thesis by simp
  next
    case False
    with assms have "col < mx" by simp
    then have "col + 1 \<le> mx" by (simp add: inc_le)
    with False show ?thesis by simp
  qed
qed

lemma write_byte_invariant:
  assumes "write_byte c s = Some s'" "column s \<le> maxColumn s"
  shows "column s' \<le> maxColumn s'"
proof (cases "c = 13")
  case True
  with assms show ?thesis by (simp add: write_byte_cr)
next
  case False
  note r = write_byte_result [OF assms(1) False]
  show ?thesis
  proof (cases "c = 10")
    case True
    with r show ?thesis by simp
  next
    case False
    with r column_step(2) [OF assms(2)] show ?thesis by simp
  qed
qed

lemma writeAll_plain_column:
  assumes "writeAll cs s = Some s'" "\<forall>c\<in>set cs. c \<noteq> 10 \<and> c \<noteq> 13"
    "column s \<le> maxColumn s"
  shows "unat (column s') = (unat (column s) + length cs) mod (unat (maxColumn s) + 1)
         \<and> maxColumn s' = maxColumn s \<and> out s' = out s @ cs"
  using assms
proof (induction cs arbitrary: s)
  case Nil
  then have "unat (column s) \<le> unat (maxColumn s)" by (simp add: word_le_nat_alt)
  with Nil show ?case by simp
next
  case (Cons c cs)
  from Cons.prems(1) obtain s1 where w: "write_byte c s = Some s1"
    and rest: "writeAll cs s1 = Some s'"
    by (auto split: bind_splits)
  from Cons.prems(2) have c: "c \<noteq> 10" "c \<noteq> 13" and cs: "\<forall>c\<in>set cs. c \<noteq> 10 \<and> c \<noteq> 13"
    by simp_all
  note r = write_byte_result [OF w c(2)]
  from r(1) c(1) have col: "column s1 = (if column s = maxColumn s then 0 else column s + 1)"
    by simp
  from column_step [OF Cons.prems(3)] col r(2)
  have u: "unat (column s1) = (unat (column s) + 1) mod (unat (maxColumn s) + 1)"
    and inv: "column s1 \<le> maxColumn s1" by simp_all
  from Cons.IH [OF rest cs inv] r(2,4)
  have "unat (column s') = (unat (column s1) + length cs) mod (unat (maxColumn s) + 1)"
    and m: "maxColumn s' = maxColumn s" and o: "out s' = out s @ c # cs"
    by simp_all
  then have "unat (column s') =
      ((unat (column s) + 1) mod (unat (maxColumn s) + 1) + length cs) mod (unat (maxColumn s) + 1)"
    using u by simp
  also have "\<dots> = (unat (column s) + 1 + length cs) mod (unat (maxColumn s) + 1)"
    by (rule mod_add_left_eq)
  finally show ?case using m o by simp
qed

lemma writeAll_invariant:
  assumes "writeAll cs s = Some s'" "column s \<le> maxColumn s"
  shows "column s' \<le> maxColumn s'"
  using assms
proof (induction cs arbitrary: s)
  case Nil
  then show ?case by simp
next
  case (Cons c cs)
  from Cons.prems(1) obtain s1 where w: "write_byte c s = Some s1"
    and rest: "writeAll cs s1 = Some s'"
    by (auto split: bind_splits)
  from Cons.IH [OF rest write_byte_invariant [OF w Cons.prems(2)]] show ?case .
qed

lemma steady_write_byte:
  assumes "steady X s" "busyBound s \<le> X" "2 \<le> length (ticks s)"
  shows "\<exists>s'. write_byte c s = Some s' \<and> steady X s' \<and>
           length (ticks s) - 2 \<le> length (ticks s') \<and> busyBound s' = busyBound s"
proof (cases "c = 13")
  case True
  with assms show ?thesis by (simp add: write_byte_cr)
next
  case False
  from assms(3) obtain t1 t2 ts where tk: "ticks s = t1 # t2 # ts"
    by (cases "ticks s"; cases "tl (ticks s)") auto
  define d :: u32 where "d = (if c = 10 \<or> column s = maxColumn s
                 then word_of_int BYTE_TIME +
                      (if prevByte s = 10
                       then (ucast (charHeight s) + ucast (lineSpacing s)) * dotFeedTime s
                       else ucast (charHeight s) * dotPrintTime s +
                            ucast (lineSpacing s) * dotFeedTime s)
                 else word_of_int BYTE_TIME)"
  have "unat d \<le> busyBound s" by (simp add: d_def busyBound_def le_max_iff_disj)
  with assms(2) have dX: "unat d \<le> X" by simp
  from assms(1) have nd: "\<not> dtrEnabled s" by (simp add: steady_def)
  note w = steady_wait [OF assms(1) tk]
  have tk1: "ticks (s\<lparr>ticks := t2 # ts\<rparr>) = t2 # ts" by simp
  from steady_set(2) [OF w(2) tk1 dX]
  have sp: "spaced X (unat (t2 + d)) ts" by (simp add: steady_def)
  have "\<exists>s'. write_byte c s = Some s' \<and> ticks s' = ts \<and> resumeTime s' = t2 + d
          \<and> \<not> dtrEnabled s' \<and> busyBound s' = busyBound s"
    using False w(1) nd
    by (simp add: write_byte_def Let_def streamWrite_def timeoutSet_def micros_def d_def
        busyBound_def)
  then obtain s' where "write_byte c s = Some s'" "ticks s' = ts" "resumeTime s' = t2 + d"
    "\<not> dtrEnabled s'" "busyBound s' = busyBound s" by blast
  with sp tk show ?thesis by (auto simp: steady_def)
qed

lemma steady_writeAll:
  assumes "steady X s" "busyBound s \<le> X" "2 * length cs \<le> length (ticks s)"
  shows "\<exists>s'. writeAll cs s = Some s'"
  using assms
proof (induction cs arbitrary: s)
  case Nil
  then show ?case by simp
next
  case (Cons c cs)
  from Cons.prems(3) have "2 \<le> length (ticks s)" by simp
  from steady_write_byte [OF Cons.prems(1,2) this, of c]
  obtain s1 where w: "write_byte c s = Some s1" and st: "steady X s1"
    and l: "length (ticks s) - 2 \<le> length (ticks s1)" and b: "busyBound s1 = busyBound s"
    by blast
  from l Cons.prems(3) have "2 * length cs \<le> length (ticks s1)" by simp
  from Cons.IH [OF st _ this] b Cons.prems(2) obtain s' where "writeAll cs s1 = Some s'" by auto
  with w show ?case by simp
qed

lemma busyBound_fresh: "busyBound (fresh ts) = 733746"
  by (simp add: busyBound_def fresh_def BYTE_TIME_val)

subsection \<open>Bitmap geometry\<close>

lemma cdiv_pos: "0 \<le> a \<Longrightarrow> 0 < b \<Longrightarrow> cdiv a b = a div b"
  by (cases "a = 0") (simp_all add: cdiv_def)

lemma rowBytesOf_ceiling: "1 \<le> w \<Longrightarrow> rowBytesOf w = \<lceil>real_of_int w / 8\<rceil>"
proof -
  assume "1 \<le> w"
  then have "rowBytesOf w = (w + 7) div 8" by (simp add: rowBytesOf_def cdiv_pos)
  also have "\<dots> = - (- w div 8)" by presburger
  also have "\<dots> = \<lceil>real_of_int w / real_of_int 8\<rceil>" by (rule ceiling_divide_eq_div [symmetric])
  finally show ?thesis by simp
qed

lemma rowBytesClipped_range:
  assumes "1 \<le> w"
  shows "1 \<le> rowBytesClippedOf (rowBytesOf w)" "rowBytesClippedOf (rowBytesOf w) \<le> 48"
    "rowBytesClippedOf (rowBytesOf w) = min \<lceil>real_of_int w / 8\<rceil> 48"
proof -
  from assms have e: "rowBytesOf w = (w + 7) div 8" by (simp add: rowBytesOf_def cdiv_pos)
  from assms have "1 \<le> (w + 7) div 8" by presburger
  with e show "1 \<le> rowBytesClippedOf (rowBytesOf w)" by (simp add: rowBytesClippedOf_def)
  show "rowBytesClippedOf (rowBytesOf w) \<le> 48" by (simp add: rowBytesClippedOf_def)
  have "rowBytesClippedOf x = min x 48" for x by (simp add: rowBytesClippedOf_def min_def)
  then show "rowBytesClippedOf (rowBytesOf w) = min \<lceil>real_of_int w / 8\<rceil> 48"
    by (simp only: rowBytesOf_ceiling [OF assms])
qed

lemma chunkHeightOf_le: "chunkHeightOf h rowStart l \<le> l"
  by (simp add: chunkHeightOf_def)

lemma chunkHeightOf_ge: "1 \<le> l \<Longrightarrow> rowStart < h \<Longrightarrow> 1 \<le> chunkHeightOf h rowStart l"
  by (simp add: chunkHeightOf_def)

lemma chunkHeightLimit_timing:
  assumes "1 \<le> rbc" "rbc \<le> 48"
  shows "chunkHeightLimitOf False mch rbc = Some (min mch (256 div rbc))"
proof -
  from assms have c: "cdiv 256 rbc = 256 div rbc" by (simp add: cdiv_pos)
  from assms have "256 div 48 \<le> 256 div rbc" by (intro zdiv_mono2) simp_all
  then have "1 \<le> 256 div rbc" by simp
  with assms c show ?thesis by (auto simp: chunkHeightLimitOf_def Let_def min_def)
qed

subsection \<open>Parameters with a range\<close>

lemma adjustCharValues_out:
  assumes "adjustCharValues s = Some s'"
  shows "\<exists>rest. out s' = out s @ [27, 77, fontData s AND 7, 12] @ rest"
proof -
  let ?a = "adjustCharFields s"
  from assms obtain s6 s7 where
    w1: "writeBytes [27, 77, fontData s AND 7, 12] ?a = Some s6" and
    w2: "writeBytes [29, 33, drop_bit 3 (fontStyleOf (printMode s)), 12] s6 = Some s7" and
    w3: "(if autoLineHeight s7 then writeBytes [27, 51, charHeight s7 + lineSpacing s7] s7
          else Some s7) = Some s'"
    by (auto simp: adjustCharValues_def Let_def split: bind_splits)
  note f1 = writeBytes_frame [OF w1] and f2 = writeBytes_frame [OF w2]
  have "\<exists>c. out s' = out s7 @ c"
  proof (cases "autoLineHeight s7")
    case True
    with w3 have "writeBytes [27, 51, charHeight s7 + lineSpacing s7] s7 = Some s'" by simp
    from writeBytes_frame(2) [OF this] show ?thesis by simp
  next
    case False
    with w3 show ?thesis by simp
  qed
  then obtain c where "out s' = out s7 @ c" by blast
  with f1(2) f2(2) have "out s' = out s @ [27, 77, fontData s AND 7, 12] @
      ([29, 33, drop_bit 3 (fontStyleOf (printMode s)), 12] @ c)"
    by (simp add: adjustCharFields_env)
  then show ?thesis by blast
qed

lemma small_and7:
  fixes f :: u8
  assumes "f \<le> 4"
  shows "f AND 7 = f"
proof -
  from assms have "unat f \<le> 4" by (simp add: word_le_nat_alt)
  then have "unat f \<in> {0, 1, 2, 3, 4}" by auto
  then have "f \<in> {0, 1, 2, 3, 4}" by (auto simp: word_unat_eq_iff)
  then show ?thesis by auto
qed

lemma setFont_select:
  "(if 65 \<le> font then (if 69 < toupper font then 0 else toupper font - 65)
       else if 4 < font then 0 else font) =
   (if font \<le> 4 then font
    else if 65 \<le> font \<and> font \<le> 69 then font - 65
    else if 97 \<le> font \<and> font \<le> 101 then font - 97
    else (0::u8))"
  by (simp add: toupper_def) unat_arith

lemma setFont_out:
  assumes "setFont font s = Some s'"
  shows "\<exists>rest. out s' = out s @
           [27, 77,
            (if font \<le> 4 then font
             else if 65 \<le> font \<and> font \<le> 69 then font - 65
             else if 97 \<le> font \<and> font \<le> 101 then font - 97
             else 0), 12] @ rest"
proof -
  define sel :: u8 where "sel = (if font \<le> 4 then font
             else if 65 \<le> font \<and> font \<le> 69 then font - 65
             else if 97 \<le> font \<and> font \<le> 101 then font - 97
             else 0)"
  have "sel \<le> 4" unfolding sel_def by unat_arith
  then have a7: "sel AND 7 = sel" by (rule small_and7)
  from assms have "adjustCharValues (s\<lparr>fontData := (fontData s AND 248) OR sel\<rparr>) = Some s'"
    by (simp only: setFont_font setFont_select sel_def)
  from adjustCharValues_out [OF this] a7 show ?thesis
    by (simp add: font_bits sel_def)
qed

lemma clamp_commands:
  "underlineOn weight s = writeBytes [27, 45, min weight 2] s"
  "setCharset val s = writeBytes [27, 82, min val 15] s"
  "setCodePage val s = writeBytes [27, 116, min val 47] s"
  by (auto simp: underlineOn_def setCharset_def setCodePage_def Let_def min_def)

lemma writeEach_frame:
  assumes "writeEach cs s = Some s'"
  shows "out s' = out s @ cs \<and> settings s' = settings s"
  using assms
proof (induction cs arbitrary: s)
  case Nil
  then show ?case by simp
next
  case (Cons c cs)
  from Cons.prems obtain s1 where w: "writeBytes [c] s = Some s1"
    and rest: "writeEach cs s1 = Some s'"
    by (auto split: bind_splits)
  from Cons.IH [OF rest] writeBytes_frame [OF w] show ?case by simp
qed

lemma feed_recent_frame:
  assumes "feed x s = Some s'" "264 \<le> firmware s"
  shows "out s' = out s @ [27, 100, x]" "firmware s' = firmware s"
    "dotPrintTime s' = dotPrintTime s" "barcodeHeight s' = barcodeHeight s"
proof -
  from assms obtain s1 s2 where w: "writeBytes [27, 100, x] s = Some s1"
    and t: "timeoutSet (dotFeedTime s * ucast (charHeight s)) s1 = Some s2"
    and e: "s' = s2\<lparr>prevByte := 10, column := 0\<rparr>"
    by (rule feed_recent_split)
  note fw = writeBytes_frame [OF w] and ft = timeoutSet_frame [OF t]
  note e1 = settings_fields [OF fw(1)] and e2 = settings_fields [OF ft(1)]
  show "out s' = out s @ [27, 100, x]" using e fw(2) ft(2) by simp
  show "firmware s' = firmware s" using e e1(3) e2(3) by simp
  show "dotPrintTime s' = dotPrintTime s" using e e1(4) e2(4) by simp
  show "barcodeHeight s' = barcodeHeight s" using e e1(13) e2(13) by simp
qed

lemma printBarcode_recent_out:
  assumes "printBarcode text type s = Some s'" "264 \<le> firmware s"
  shows "out s' = out s @ [27, 100, 1, 29, 72, 2, 29, 119, 3, 29, 107, type + 65,
                      of_nat (min (length text) 255)] @ take 255 text"
proof -
  from assms(1) obtain s1 where f: "feed 1 s = Some s1"
    by (cases "feed 1 s") (simp_all add: printBarcode_def)
  note ff = feed_recent_frame [OF f assms(2)]
  with assms(2) have fw1: "264 \<le> firmware s1" by simp
  from assms(1) f fw1 obtain s2 where w2: "writeBytes [29, 72, 2] s1 = Some s2"
    by (cases "writeBytes [29, 72, 2] s1") (simp_all add: printBarcode_def)
  note f2 = writeBytes_frame [OF w2]
  from assms(1) f fw1 w2 obtain s3 where w3: "writeBytes [29, 119, 3] s2 = Some s3"
    by (cases "writeBytes [29, 119, 3] s2") (simp_all add: printBarcode_def)
  note f3 = writeBytes_frame [OF w3]
  from assms(1) f fw1 w2 w3 obtain s4 where w4: "writeBytes [29, 107, type + 65] s3 = Some s4"
    by (cases "writeBytes [29, 107, type + 65] s3") (simp_all add: printBarcode_def)
  note f4 = writeBytes_frame [OF w4]
  have fw4: "264 \<le> firmware s4"
    using fw1 settings_fields(3) [OF f2(1)] settings_fields(3) [OF f3(1)]
      settings_fields(3) [OF f4(1)] by simp
  have len: "(if 255 < int (length text) then 255 else int (length text)) =
             int (min (length text) 255)" by simp
  from assms(1) f fw1 w2 w3 w4 fw4 obtain s5 where
    w5: "writeBytes [of_nat (min (length text) 255)] s4 = Some s5"
    unfolding printBarcode_def Let_def len
    by (cases "writeBytes [of_nat (min (length text) 255)] s4") simp_all
  note f5 = writeBytes_frame [OF w5]
  have tk: "take (min (length text) 255) text = take 255 text" by (simp add: min_def)
  from assms(1) f fw1 w2 w3 w4 fw4 w5 obtain s6 where
    w6: "writeEach (take 255 text) s5 = Some s6"
    unfolding printBarcode_def Let_def len
    by (cases "writeEach (take 255 text) s5") (simp_all add: tk)
  note f6 = writeEach_frame [OF w6]
  from assms(1) f fw1 w2 w3 w4 fw4 w5 w6 obtain s7 where
    t7: "timeoutSet ((ucast (barcodeHeight s6) + 40) * dotPrintTime s6) s6 = Some s7"
    and e: "s' = s7\<lparr>prevByte := 10\<rparr>"
    unfolding printBarcode_def Let_def len
    by (cases "timeoutSet ((ucast (barcodeHeight s6) + 40) * dotPrintTime s6) s6")
       (simp_all add: tk)
  from timeoutSet_frame(2) [OF t7] e f6 f5(2) f4(2) f3(2) f2(2) ff(1)
  show ?thesis by simp
qed

lemma drop_next: "drop n xs = t # ts \<Longrightarrow> drop (Suc n) xs = ts"
  by (simp add: drop_Suc tl_drop [symmetric])

lemma steady_feed:
  assumes "264 \<le> firmware s" "steady X s" "3 \<le> length (ticks s)" "3438 \<le> X"
    "unat (dotFeedTime s * ucast (charHeight s)) \<le> X"
  shows "\<exists>s'. feed x s = Some s' \<and> steady X s' \<and> ticks s' = drop 3 (ticks s)"
proof -
  from assms(3) have l2: "2 \<le> length (ticks s)" by simp
  from steady_writeBytes_ex [OF assms(2) l2, of "[27, 100, x]"] assms(4)
  obtain s1 where w: "writeBytes [27, 100, x] s = Some s1" and st1: "steady X s1"
    and tk: "ticks s1 = drop 2 (ticks s)" by auto
  note f1 = settings_fields [OF writeBytes_frame(1) [OF w]]
  from tk assms(3) have "1 \<le> length (ticks s1)" by simp
  then obtain t ts where tk1: "ticks s1 = t # ts" by (cases "ticks s1") auto
  from assms(5) f1 have d: "unat (dotFeedTime s1 * ucast (charHeight s1)) \<le> X" by simp
  note ss = steady_set [OF st1 tk1 d]
  let ?s2 = "s1\<lparr>ticks := ts, resumeTime := t + dotFeedTime s1 * ucast (charHeight s1)\<rparr>"
  have "feed x s = Some (?s2\<lparr>prevByte := 10, column := 0\<rparr>)"
    using assms(1) w ss(1) by (simp add: feed_def)
  moreover have "steady X (?s2\<lparr>prevByte := 10, column := 0\<rparr>)"
    using ss(2) by (simp add: steady_def)
  moreover have "ticks (?s2\<lparr>prevByte := 10, column := 0\<rparr>) = drop 3 (ticks s)"
  proof -
    from tk tk1 have "drop 2 (ticks s) = t # ts" by simp
    from drop_next [OF this] show ?thesis by simp
  qed
  ultimately show ?thesis by blast
qed

lemma steady_writeEach:
  assumes "steady X s" "1146 \<le> X" "2 * length cs \<le> length (ticks s)"
  shows "\<exists>s'. writeEach cs s = Some s' \<and> steady X s' \<and>
           ticks s' = drop (2 * length cs) (ticks s)"
  using assms
proof (induction cs arbitrary: s)
  case Nil
  then show ?case by simp
next
  case (Cons c cs)
  from Cons.prems(3) have "2 \<le> length (ticks s)" by simp
  from steady_writeBytes_ex [OF Cons.prems(1) this, of "[c]"] Cons.prems(2)
  obtain s1 where w: "writeBytes [c] s = Some s1" and st: "steady X s1"
    and tk: "ticks s1 = drop 2 (ticks s)" by auto
  from tk Cons.prems(3) have "2 * length cs \<le> length (ticks s1)" by simp
  from Cons.IH [OF st Cons.prems(2) this] obtain s' where "writeEach cs s1 = Some s'"
    "steady X s'" "ticks s' = drop (2 * length cs) (ticks s1)" by blast
  with w tk show ?case by (simp add: add.commute)
qed

lemma steady_printBarcode:
  assumes "264 \<le> firmware s" "steady X s" "12 + 2 * min (length text) 255 \<le> length (ticks s)"
    "3438 \<le> X" "unat (dotFeedTime s * ucast (charHeight s)) \<le> X"
    "unat ((ucast (barcodeHeight s) + 40) * dotPrintTime s) \<le> X"
  shows "\<exists>s'. printBarcode text type s = Some s'"
proof -
  from assms(3) have "3 \<le> length (ticks s)" by simp
  from steady_feed [OF assms(1,2) this assms(4,5), of 1]
  obtain s1 where f: "feed 1 s = Some s1" and st1: "steady X s1"
    and tk1: "ticks s1 = drop 3 (ticks s)" by blast
  note ff = feed_recent_frame [OF f assms(1)]
  from ff assms(1) have fw1: "264 \<le> firmware s1" by simp
  have "2 \<le> length (ticks s1)" using tk1 assms(3) by simp
  from steady_writeBytes_ex [OF st1 this, of "[29, 72, 2]"] assms(4)
  obtain s2 where w2: "writeBytes [29, 72, 2] s1 = Some s2" and st2: "steady X s2"
    and tk2: "ticks s2 = drop 5 (ticks s)" by (auto simp: tk1)
  note e2 = settings_fields [OF writeBytes_frame(1) [OF w2]]
  have "2 \<le> length (ticks s2)" using tk2 assms(3) by simp
  from steady_writeBytes_ex [OF st2 this, of "[29, 119, 3]"] assms(4)
  obtain s3 where w3: "writeBytes [29, 119, 3] s2 = Some s3" and st3: "steady X s3"
    and tk3: "ticks s3 = drop 7 (ticks s)" by (auto simp: tk2)
  note e3 = settings_fields [OF writeBytes_frame(1) [OF w3]]
  have "2 \<le> length (ticks s3)" using tk3 assms(3) by simp
  from steady_writeBytes_ex [OF st3 this, of "[29, 107, type + 65]"] assms(4)
  obtain s4 where w4: "writeBytes [29, 107, type + 65] s3 = Some s4" and st4: "steady X s4"
    and tk4: "ticks s4 = drop 9 (ticks s)" by (auto simp: tk3)
  note e4 = settings_fields [OF writeBytes_frame(1) [OF w4]]
  have fw4: "264 \<le> firmware s4" using fw1 e2(3) e3(3) e4(3) by simp
  have "2 \<le> length (ticks s4)" using tk4 assms(3) by simp
  from steady_writeBytes_ex [OF st4 this, of "[of_nat (min (length text) 255)]"] assms(4)
  obtain s5 where w5: "writeBytes [of_nat (min (length text) 255)] s4 = Some s5"
    and st5: "steady X s5" and tk5: "ticks s5 = drop 11 (ticks s)" by (auto simp: tk4)
  note e5 = settings_fields [OF writeBytes_frame(1) [OF w5]]
  have l5: "2 * length (take 255 text) \<le> length (ticks s5)" using tk5 assms(3) by simp
  have x: "(1146::nat) \<le> X" using assms(4) by simp
  from steady_writeEach [OF st5 x l5]
  obtain s6 where w6: "writeEach (take 255 text) s5 = Some s6" and st6: "steady X s6"
    and tk6: "ticks s6 = drop (2 * length (take 255 text)) (ticks s5)" by blast
  note e6 = settings_fields [OF conjunct2 [OF writeEach_frame [OF w6]]]
  have "1 \<le> length (ticks s6)" using tk6 tk5 assms(3) by simp
  then obtain t ts where tk6': "ticks s6 = t # ts" by (cases "ticks s6") auto
  have "unat ((ucast (barcodeHeight s6) + 40) * dotPrintTime s6) \<le> X"
    using assms(6) ff(3,4) e2(4,13) e3(4,13) e4(4,13) e5(4,13) e6(4,13) by simp
  note ss = steady_set(1) [OF st6 tk6' this]
  have len: "(if 255 < int (length text) then 255 else int (length text)) =
             int (min (length text) 255)" by simp
  have tk: "take (min (length text) 255) text = take 255 text" by (simp add: min_def)
  show ?thesis
    unfolding printBarcode_def Let_def len
    using f fw1 w2 w3 w4 fw4 w5 w6 ss by (simp add: tk)
qed

subsection \<open>The barcode copy loop of old firmware\<close>

text \<open>
  Every \<^verbatim>\<open>writeBytes\<close> takes at least one reading, of the pin or of the clock. The copy
  loop of firmware before 264 indexes the string with a byte: when the first 256
  characters hold no NUL the index comes back to 0 without having met the terminator,
  and the loop does not end, whatever readings are still to come.
\<close>

lemma waitPin_shorter: "waitPin ps = Some ps' \<Longrightarrow> length ps' < length ps"
  by (induction ps) (auto split: if_splits)

lemma waitClock_shorter: "waitClock r ts = Some ts' \<Longrightarrow> length ts' < length ts"
  by (induction ts) (auto split: if_splits)

lemma timeoutWait_consumes:
  assumes "timeoutWait s = Some s'"
  shows "length (ticks s') + length (pin s') < length (ticks s) + length (pin s)"
  using timeoutWait_cases [OF assms] by (auto dest: waitPin_shorter waitClock_shorter)

lemma timeoutSet_readings:
  assumes "timeoutSet x s = Some s'"
  shows "length (ticks s') + length (pin s') \<le> length (ticks s) + length (pin s)"
  using timeoutSet_cases [OF assms] by auto

lemma writeBytes_consumes:
  assumes "writeBytes bs s = Some s'"
  shows "length (ticks s') + length (pin s') < length (ticks s) + length (pin s)"
proof -
  from assms obtain s1 where w: "timeoutWait s = Some s1"
    and t: "timeoutSet (word_of_int (int (length bs) * BYTE_TIME)) (s1\<lparr>out := out s1 @ bs\<rparr>) = Some s'"
    by (rule writeBytes_split)
  from timeoutWait_consumes [OF w] timeoutSet_readings [OF t] show ?thesis by simp
qed

lemma copyString_wraps:
  assumes "256 < length cstr" "\<forall>k < 256. cstr ! k \<noteq> 0"
  shows "copyString cstr i s = None"
proof (induction "length (ticks s) + length (pin s)" arbitrary: i s rule: less_induct)
  case less
  have i: "unat i < 256" using unsigned_less [of i] by simp
  with assms have nz: "cstr ! unat i \<noteq> 0" and l: "unat i < length cstr" by simp_all
  show ?case
  proof (cases "writeBytes [cstr ! unat i] s")
    case None
    then show ?thesis using l by (subst copyString.simps) simp
  next
    case (Some s1)
    from less [OF writeBytes_consumes [OF Some]] have "copyString cstr (i + 1) s1 = None" .
    then show ?thesis using l nz Some by (subst copyString.simps) simp
  qed
qed

lemma write_byte_firmware:
  assumes "write_byte c s = Some s'"
  shows "firmware s' = firmware s"
proof (cases "c = 13")
  case True
  with assms show ?thesis by (simp add: write_byte_def)
next
  case False
  from assms False obtain s1 d s4 where w: "timeoutWait s = Some s1"
    and t: "timeoutSet d
       (if c = 10 \<or> column s = maxColumn s
        then s1\<lparr>out := out s1 @ [c], column := 0\<rparr>
        else s1\<lparr>out := out s1 @ [c], column := column s + 1\<rparr>) = Some s4"
    and e: "s' = s4\<lparr>prevByte := (if c = 10 \<or> column s = maxColumn s then 10 else c)\<rparr>"
    by (rule write_byte_split)
  from settings_fields(3) [OF timeoutWait_frame(1) [OF w]]
    settings_fields(3) [OF timeoutSet_frame(1) [OF t]] e
  show ?thesis by (simp split: if_splits)
qed

lemma feedLines_firmware: "feedLines n s = Some s' \<Longrightarrow> firmware s' = firmware s"
proof (induction n arbitrary: s)
  case 0
  then show ?case by simp
next
  case (Suc n)
  from Suc.prems obtain s1 where w: "write_byte 10 s = Some s1" and r: "feedLines n s1 = Some s'"
    by (auto split: bind_splits)
  from Suc.IH [OF r] write_byte_firmware [OF w] show ?case by simp
qed

lemma printBarcode_old_firmware_long:
  assumes "firmware s < 264" "256 \<le> length str" "\<forall>k < 256. str ! k \<noteq> 0"
  shows "printBarcode str btype s = None"
proof (rule ccontr)
  assume "printBarcode str btype s \<noteq> None"
  then obtain s' where r: "printBarcode str btype s = Some s'" by blast
  from assms(1) have old: "\<not> 264 \<le> firmware s" by simp
  from r obtain s1 where f: "feed 1 s = Some s1"
    by (cases "feed 1 s") (simp_all add: printBarcode_def)
  from f old have "feedLines (unat (1::u8)) s = Some s1" by (simp add: feed_def)
  then have f1: "firmware s1 = firmware s" by (rule feedLines_firmware)
  from r f f1 old obtain s2 where w2: "writeBytes [29, 72, 2] s1 = Some s2"
    by (cases "writeBytes [29, 72, 2] s1") (simp_all add: printBarcode_def)
  from r f f1 old w2 obtain s3 where w3: "writeBytes [29, 119, 3] s2 = Some s3"
    by (cases "writeBytes [29, 119, 3] s2") (simp_all add: printBarcode_def)
  from r f f1 old w2 w3 obtain s4 where w4: "writeBytes [29, 107, btype] s3 = Some s4"
    by (cases "writeBytes [29, 107, btype] s3") (simp_all add: printBarcode_def)
  from settings_fields(3) [OF writeBytes_frame(1) [OF w2]]
    settings_fields(3) [OF writeBytes_frame(1) [OF w3]]
    settings_fields(3) [OF writeBytes_frame(1) [OF w4]] f1
  have f4: "firmware s4 = firmware s" by simp
  have "\<forall>k < 256. (str @ [0]) ! k \<noteq> 0" using assms(2,3) by (simp add: nth_append)
  moreover have "256 < length (str @ [0])" using assms(2) by simp
  ultimately have "copyString (str @ [0]) 0 s4 = None" by (rule copyString_wraps [rotated])
  with r f f1 old w2 w3 w4 f4 show False by (simp add: printBarcode_def)
qed

subsection \<open>Bitmap from memory\<close>

lemma sendRow_result:
  assumes "sendRow n bitmap i s = Some (i', s')"
  shows "i' = i + n \<and> out s' = out s @ take n (drop i bitmap) \<and> settings s' = settings s
         \<and> resumeTime s' = resumeTime s \<and> (n = 0 \<or> i + n \<le> length bitmap)"
  using assms
proof (induction n arbitrary: i s)
  case 0
  then show ?case by simp
next
  case (Suc n)
  from Suc.prems obtain s1 where w: "timeoutWait s = Some s1" and lt: "i < length bitmap"
    and rest: "sendRow n bitmap (i + 1) (streamWrite (bitmap ! i) s1) = Some (i', s')"
    by (auto split: bind_splits if_splits)
  note fw = timeoutWait_frame [OF w]
  from Suc.IH [OF rest] have ih: "i' = i + 1 + n"
    "out s' = out (streamWrite (bitmap ! i) s1) @ take n (drop (i + 1) bitmap)"
    "settings s' = settings (streamWrite (bitmap ! i) s1)"
    "resumeTime s' = resumeTime (streamWrite (bitmap ! i) s1)"
    "n = 0 \<or> i + 1 + n \<le> length bitmap" by simp_all
  have d: "drop i bitmap = bitmap ! i # drop (i + 1) bitmap"
    using lt by (simp add: Cons_nth_drop_Suc)
  have "out s' = out s @ take (Suc n) (drop i bitmap)"
    using ih(2) fw(2) by (simp add: d streamWrite_def)
  moreover have "settings s' = settings s" using ih(3) fw(1) by (simp add: streamWrite_def settings_upd)
  moreover have "resumeTime s' = resumeTime s" using ih(4) fw(4) by (simp add: streamWrite_def)
  moreover have "i + Suc n \<le> length bitmap" using ih(5) lt by auto
  ultimately show ?case using ih(1) by simp
qed

lemma concat_rows_Suc:
  "concat (map (\<lambda>k. f (i + k * m)) [0..<Suc y]) =
     f i @ concat (map (\<lambda>k. f (i + m + k * m)) [0..<y])"
proof -
  have "[0..<Suc y] = 0 # map Suc [0..<y]" by (simp add: upt_conv_Cons map_Suc_upt del: upt_Suc)
  then show ?thesis by (simp add: comp_def algebra_simps del: upt_Suc)
qed

lemma sendRows_result:
  assumes "sendRows y rbc skip bitmap i s = Some (i', s')"
  shows "i' = i + y * (rbc + skip)
         \<and> out s' = out s @ concat (map (\<lambda>k. take rbc (drop (i + k * (rbc + skip)) bitmap)) [0..<y])
         \<and> settings s' = settings s \<and> resumeTime s' = resumeTime s"
  using assms
proof (induction y arbitrary: i s)
  case 0
  then show ?case by simp
next
  case (Suc y)
  from Suc.prems obtain i1 s1 where r: "sendRow rbc bitmap i s = Some (i1, s1)"
    and rest: "sendRows y rbc skip bitmap (i1 + skip) s1 = Some (i', s')"
    by (auto split: bind_splits)
  from sendRow_result [OF r] have r1: "i1 = i + rbc" "out s1 = out s @ take rbc (drop i bitmap)"
    "settings s1 = settings s" "resumeTime s1 = resumeTime s" by simp_all
  from Suc.IH [OF rest] r1 have ih: "i' = i + rbc + skip + y * (rbc + skip)"
    "out s' = out s @ take rbc (drop i bitmap) @
       concat (map (\<lambda>k. take rbc (drop (i + rbc + skip + k * (rbc + skip)) bitmap)) [0..<y])"
    "settings s' = settings s" "resumeTime s' = resumeTime s" by simp_all
  have "concat (map (\<lambda>k. take rbc (drop (i + k * (rbc + skip)) bitmap)) [0..<Suc y]) =
     take rbc (drop i bitmap) @
       concat (map (\<lambda>k. take rbc (drop (i + (rbc + skip) + k * (rbc + skip)) bitmap)) [0..<y])"
    by (rule concat_rows_Suc [of "\<lambda>j. take rbc (drop j bitmap)" i "rbc + skip" y])
  with ih show ?case by (simp add: add.assoc del: upt_Suc)
qed

lemma sendChunks_done:
  "\<not> rowStart < h \<Longrightarrow> sendChunks rowStart h l rb rbc bitmap i s = Some s"
  by (subst sendChunks.simps) simp

lemma sendChunks_chunk:
  assumes "sendChunks rowStart h l rb rbc bitmap i s = Some s'" "rowStart < h"
  shows "\<exists>s3. out s3 = out s @ [18, 42, word_of_int (chunkHeightOf h rowStart l), word_of_int rbc]
             @ concat (map (\<lambda>k. take (nat rbc) (drop (i + k * (nat rbc + nat (rb - rbc))) bitmap))
                 [0..<nat (chunkHeightOf h rowStart l)])
           \<and> settings s3 = settings s
           \<and> sendChunks (rowStart + l) h l rb rbc bitmap
               (i + nat (chunkHeightOf h rowStart l) * (nat rbc + nat (rb - rbc))) s3 = Some s'"
proof -
  let ?ch = "chunkHeightOf h rowStart l"
  from assms have u: "Option.bind
             (writeBytes [18, 42, word_of_int ?ch, word_of_int rbc] s)
             (\<lambda>s1. Option.bind
                (sendRows (nat ?ch) (nat rbc) (nat (rb - rbc)) bitmap i s1)
                (\<lambda>r. Option.bind
                   (timeoutSet (word_of_int ?ch * dotPrintTime (snd r)) (snd r))
                   (\<lambda>s3. sendChunks (rowStart + l) h l rb rbc bitmap (fst r) s3))) = Some s'"
    by (subst (asm) sendChunks.simps) simp
  then obtain s1 where w: "writeBytes [18, 42, word_of_int ?ch, word_of_int rbc] s = Some s1"
    and u1: "Option.bind
                (sendRows (nat ?ch) (nat rbc) (nat (rb - rbc)) bitmap i s1)
                (\<lambda>r. Option.bind
                   (timeoutSet (word_of_int ?ch * dotPrintTime (snd r)) (snd r))
                   (\<lambda>s3. sendChunks (rowStart + l) h l rb rbc bitmap (fst r) s3)) = Some s'"
    by (auto simp: bind_eq_Some_conv)
  then obtain i2 s2 where r: "sendRows (nat ?ch) (nat rbc) (nat (rb - rbc)) bitmap i s1 = Some (i2, s2)"
    and u2: "Option.bind (timeoutSet (word_of_int ?ch * dotPrintTime s2) s2)
                   (\<lambda>s3. sendChunks (rowStart + l) h l rb rbc bitmap i2 s3) = Some s'"
    by (auto simp: bind_eq_Some_conv)
  then obtain s3 where t: "timeoutSet (word_of_int ?ch * dotPrintTime s2) s2 = Some s3"
    and rest: "sendChunks (rowStart + l) h l rb rbc bitmap i2 s3 = Some s'"
    by (auto simp: bind_eq_Some_conv)
  note fw = writeBytes_frame [OF w] and fr = sendRows_result [OF r] and ft = timeoutSet_frame [OF t]
  have "out s3 = out s @ [18, 42, word_of_int ?ch, word_of_int rbc]
             @ concat (map (\<lambda>k. take (nat rbc) (drop (i + k * (nat rbc + nat (rb - rbc))) bitmap))
                 [0..<nat ?ch])"
    using fw(2) fr ft(2) by simp
  moreover have "settings s3 = settings s" using fw(1) fr ft(1) by simp
  moreover have "sendChunks (rowStart + l) h l rb rbc bitmap
               (i + nat ?ch * (nat rbc + nat (rb - rbc))) s3 = Some s'"
    using rest fr by simp
  ultimately show ?thesis by blast
qed

lemma geometry_400:
  "rowBytesOf 400 = 50" "rowBytesClippedOf 50 = 48" "chunkHeightLimitOf False 255 48 = Some 5"
  "chunkHeightOf 10 0 5 = 5" "chunkHeightOf 10 5 5 = 5"
  by (simp_all add: rowBytesOf_def rowBytesClippedOf_def chunkHeightLimitOf_def chunkHeightOf_def
      cdiv_def Let_def)

lemma printBitmap_400x10_out:
  assumes "printBitmap 400 10 bitmap s = Some s'" "\<not> dtrEnabled s" "maxChunkHeight s = 255"
  shows "out s' = out s
           @ [18, 42, 5, 48] @ concat (map (\<lambda>k. take 48 (drop (k * 50) bitmap)) [0..<5])
           @ [18, 42, 5, 48] @ concat (map (\<lambda>k. take 48 (drop (250 + k * 50) bitmap)) [0..<5])"
    "prevByte s' = 10"
proof -
  from assms obtain s0 where c: "sendChunks 0 10 5 50 48 bitmap 0 s = Some s0"
    and e: "s' = s0\<lparr>prevByte := 10\<rparr>"
    by (auto simp: printBitmap_def geometry_400 Let_def)
  from sendChunks_chunk [OF c] obtain s3 where
    o3: "out s3 = out s @ [18, 42, 5, 48]
           @ concat (map (\<lambda>k. take 48 (drop (k * 50) bitmap)) [0..<5])"
    and c3: "sendChunks 5 10 5 50 48 bitmap 250 s3 = Some s0"
    by (auto simp: geometry_400 simp del: upt_Suc)
  from sendChunks_chunk [OF c3] obtain s6 where
    o6: "out s6 = out s3 @ [18, 42, 5, 48]
           @ concat (map (\<lambda>k. take 48 (drop (250 + k * 50) bitmap)) [0..<5])"
    and c6: "sendChunks 10 10 5 50 48 bitmap 500 s6 = Some s0"
    by (auto simp: geometry_400 simp del: upt_Suc)
  from c6 have "s6 = s0" by (simp add: sendChunks_done)
  with o3 o6 e show "out s' = out s
           @ [18, 42, 5, 48] @ concat (map (\<lambda>k. take 48 (drop (k * 50) bitmap)) [0..<5])
           @ [18, 42, 5, 48] @ concat (map (\<lambda>k. take 48 (drop (250 + k * 50) bitmap)) [0..<5])"
    by (simp del: upt_Suc)
  from e show "prevByte s' = 10" by simp
qed

lemma steady_streamWrite: "steady X (streamWrite b s) = steady X s"
  by (simp add: steady_def streamWrite_def)

lemma steady_sendRow:
  assumes "steady X s" "n \<le> length (ticks s)" "i + n \<le> length bitmap"
  shows "\<exists>s'. sendRow n bitmap i s = Some (i + n, s') \<and> steady X s' \<and>
           ticks s' = drop n (ticks s) \<and> settings s' = settings s"
  using assms
proof (induction n arbitrary: i s)
  case 0
  then show ?case by simp
next
  case (Suc n)
  from Suc.prems(2) obtain t ts where tk: "ticks s = t # ts" by (cases "ticks s") auto
  note w = steady_wait [OF Suc.prems(1) tk]
  let ?s1 = "streamWrite (bitmap ! i) (s\<lparr>ticks := ts\<rparr>)"
  have st: "steady X ?s1" using w(2) by (simp add: steady_streamWrite)
  have l: "n \<le> length (ticks ?s1)" using Suc.prems(2) tk by (simp add: streamWrite_def)
  have b: "i + 1 + n \<le> length bitmap" using Suc.prems(3) by simp
  from Suc.IH [OF st l b] obtain s' where
    r: "sendRow n bitmap (i + 1) ?s1 = Some (i + 1 + n, s')" and st': "steady X s'"
    and tk': "ticks s' = drop n (ticks ?s1)" and se: "settings s' = settings ?s1" by blast
  have "sendRow (Suc n) bitmap i s = Some (i + Suc n, s')"
    using w(1) r Suc.prems(3) by simp
  moreover have "ticks s' = drop (Suc n) (ticks s)" using tk' tk by (simp add: streamWrite_def)
  moreover have "settings s' = settings s" using se by (simp add: streamWrite_def settings_upd)
  ultimately show ?case using st' by blast
qed

lemma steady_sendRows:
  assumes "steady X s" "y * rbc \<le> length (ticks s)" "i + y * (rbc + skip) \<le> length bitmap"
  shows "\<exists>s'. sendRows y rbc skip bitmap i s = Some (i + y * (rbc + skip), s') \<and> steady X s' \<and>
           ticks s' = drop (y * rbc) (ticks s) \<and> settings s' = settings s"
  using assms
proof (induction y arbitrary: i s)
  case 0
  then show ?case by simp
next
  case (Suc y)
  from Suc.prems(2) have l1: "rbc \<le> length (ticks s)" by simp
  from Suc.prems(3) have b1: "i + rbc \<le> length bitmap" by simp
  from steady_sendRow [OF Suc.prems(1) l1 b1] obtain s1 where
    r: "sendRow rbc bitmap i s = Some (i + rbc, s1)" and st1: "steady X s1"
    and tk1: "ticks s1 = drop rbc (ticks s)" and se1: "settings s1 = settings s" by blast
  have l: "y * rbc \<le> length (ticks s1)" using Suc.prems(2) tk1 by simp
  have b: "i + rbc + skip + y * (rbc + skip) \<le> length bitmap" using Suc.prems(3) by simp
  from Suc.IH [OF st1 l b] obtain s' where
    rs: "sendRows y rbc skip bitmap (i + rbc + skip) s1 = Some (i + rbc + skip + y * (rbc + skip), s')"
    and st': "steady X s'" and tk': "ticks s' = drop (y * rbc) (ticks s1)"
    and se': "settings s' = settings s1" by blast
  have "sendRows (Suc y) rbc skip bitmap i s = Some (i + Suc y * (rbc + skip), s')"
    using r rs by (simp add: algebra_simps)
  moreover have "ticks s' = drop (Suc y * rbc) (ticks s)"
    using tk' tk1 by (simp add: add.commute)
  ultimately show ?case using st' se' se1 by auto
qed

lemma steady_sendChunk:
  assumes "rowStart < h" "steady X s" "4584 \<le> X"
    "unat (word_of_int (chunkHeightOf h rowStart l) * dotPrintTime s) \<le> X"
    "3 + nat (chunkHeightOf h rowStart l) * nat rbc \<le> length (ticks s)"
    "i + nat (chunkHeightOf h rowStart l) * (nat rbc + nat (rb - rbc)) \<le> length bitmap"
  shows "\<exists>s3. sendChunks rowStart h l rb rbc bitmap i s =
               sendChunks (rowStart + l) h l rb rbc bitmap
                 (i + nat (chunkHeightOf h rowStart l) * (nat rbc + nat (rb - rbc))) s3
             \<and> steady X s3 \<and> settings s3 = settings s
             \<and> ticks s3 = drop (3 + nat (chunkHeightOf h rowStart l) * nat rbc) (ticks s)"
proof -
  let ?ch = "chunkHeightOf h rowStart l"
  from assms(5) have l2: "2 \<le> length (ticks s)" by simp
  from steady_writeBytes_ex [OF assms(2) l2, of "[18, 42, word_of_int ?ch, word_of_int rbc]"]
    assms(3)
  obtain s1 where w: "writeBytes [18, 42, word_of_int ?ch, word_of_int rbc] s = Some s1"
    and st1: "steady X s1" and tk1: "ticks s1 = drop 2 (ticks s)" by auto
  note e1 = writeBytes_frame(1) [OF w]
  have lr: "nat ?ch * nat rbc \<le> length (ticks s1)" using assms(5) tk1 by simp
  from steady_sendRows [OF st1 lr assms(6)] obtain s2 where
    r: "sendRows (nat ?ch) (nat rbc) (nat (rb - rbc)) bitmap i s1 =
          Some (i + nat ?ch * (nat rbc + nat (rb - rbc)), s2)"
    and st2: "steady X s2" and tk2: "ticks s2 = drop (nat ?ch * nat rbc) (ticks s1)"
    and e2: "settings s2 = settings s1" by blast
  have tk2': "ticks s2 = drop (2 + nat ?ch * nat rbc) (ticks s)"
    using tk2 tk1 by (simp add: add.commute)
  with assms(5) have "1 \<le> length (ticks s2)" by simp
  then obtain t ts where tk2c: "ticks s2 = t # ts" by (cases "ticks s2") auto
  have "dotPrintTime s2 = dotPrintTime s"
    using settings_fields(4) [OF e2] settings_fields(4) [OF e1] by simp
  with assms(4) have d: "unat (word_of_int ?ch * dotPrintTime s2) \<le> X" by simp
  note ss = steady_set [OF st2 tk2c d]
  let ?s3 = "s2\<lparr>ticks := ts, resumeTime := t + word_of_int ?ch * dotPrintTime s2\<rparr>"
  have "sendChunks rowStart h l rb rbc bitmap i s =
        sendChunks (rowStart + l) h l rb rbc bitmap
           (i + nat ?ch * (nat rbc + nat (rb - rbc))) ?s3"
    using assms(1) w r ss(1) by (subst sendChunks.simps) simp
  moreover have "settings ?s3 = settings s" using e1 e2 by (simp add: settings_upd)
  moreover have "ticks ?s3 = drop (3 + nat ?ch * nat rbc) (ticks s)"
  proof -
    from tk2' tk2c have "drop (2 + nat ?ch * nat rbc) (ticks s) = t # ts" by simp
    from drop_next [OF this] show ?thesis by (simp add: numeral_3_eq_3)
  qed
  ultimately show ?thesis using ss(2) by blast
qed

lemma steady_printBitmap_400x10:
  assumes "steady X s" "maxChunkHeight s = 255" "486 \<le> length (ticks s)" "4584 \<le> X"
    "unat (5 * dotPrintTime s) \<le> X" "500 \<le> length bitmap"
  shows "\<exists>s'. printBitmap 400 10 bitmap s = Some s'"
proof -
  from assms(1) have nd: "\<not> dtrEnabled s" by (simp add: steady_def)
  have "\<exists>s3. sendChunks 0 10 5 50 48 bitmap 0 s = sendChunks 5 10 5 50 48 bitmap 250 s3
          \<and> steady X s3 \<and> settings s3 = settings s \<and> ticks s3 = drop 243 (ticks s)"
    using steady_sendChunk [of 0 10 X s 5 48 0 50 bitmap] assms
    by (simp add: geometry_400)
  then obtain s3 where c1: "sendChunks 0 10 5 50 48 bitmap 0 s = sendChunks 5 10 5 50 48 bitmap 250 s3"
    and st3: "steady X s3" and e3: "settings s3 = settings s" and tk3: "ticks s3 = drop 243 (ticks s)"
    by blast
  have d3: "dotPrintTime s3 = dotPrintTime s" by (rule settings_fields(4) [OF e3])
  have l3: "243 \<le> length (ticks s3)" using tk3 assms(3) by simp
  have "\<exists>s6. sendChunks 5 10 5 50 48 bitmap 250 s3 = sendChunks 10 10 5 50 48 bitmap 500 s6"
    using steady_sendChunk [of 5 10 X s3 5 48 250 50 bitmap] assms(4,5,6) st3 l3 d3
    by (auto simp: geometry_400)
  then obtain s6 where c2: "sendChunks 5 10 5 50 48 bitmap 250 s3 = sendChunks 10 10 5 50 48 bitmap 500 s6"
    by blast
  have "sendChunks 0 10 5 50 48 bitmap 0 s = Some s6"
    using c1 c2 by (simp add: sendChunks_done)
  then show ?thesis using nd assms(2) by (simp add: printBitmap_def geometry_400 Let_def)
qed

subsection \<open>Bitmap from a stream\<close>

lemma readBlocking_avail:
  "readBlocking src = Some (b, src') \<Longrightarrow> avail src = b # avail src'"
  by (induction src rule: readBlocking.induct) auto

lemma readBlocking_total:
  "avail src \<noteq> [] \<Longrightarrow> \<exists>b src'. readBlocking src = Some (b, src')"
  by (induction src rule: readBlocking.induct) auto

lemma discardBytes_avail:
  assumes "discardBytes n src = Some src'"
  shows "avail src' = drop n (avail src) \<and> n \<le> length (avail src)"
  using assms
proof (induction n arbitrary: src)
  case 0
  then show ?case by simp
next
  case (Suc n)
  from Suc.prems obtain c src1 where r: "readBlocking src = Some (c, src1)"
    and rest: "discardBytes n src1 = Some src'"
    by (auto split: bind_splits)
  from Suc.IH [OF rest] readBlocking_avail [OF r] show ?case by simp
qed

lemma discardBytes_total:
  assumes "n \<le> length (avail src)"
  shows "\<exists>src'. discardBytes n src = Some src'"
  using assms
proof (induction n arbitrary: src)
  case 0
  then show ?case by simp
next
  case (Suc n)
  then have "avail src \<noteq> []" by auto
  from readBlocking_total [OF this] obtain c src1 where r: "readBlocking src = Some (c, src1)"
    by blast
  from readBlocking_avail [OF r] Suc.prems have "n \<le> length (avail src1)" by simp
  from Suc.IH [OF this] r show ?case by simp
qed

lemma recvRow_result:
  assumes "recvRow n src s = Some (src', s')"
  shows "out s' = out s @ take n (avail src) \<and> avail src' = drop n (avail src)
         \<and> n \<le> length (avail src) \<and> settings s' = settings s \<and> resumeTime s' = resumeTime s"
  using assms
proof (induction n arbitrary: src s)
  case 0
  then show ?case by simp
next
  case (Suc n)
  from Suc.prems obtain c src1 s1 where r: "readBlocking src = Some (c, src1)"
    and w: "timeoutWait s = Some s1"
    and rest: "recvRow n src1 (streamWrite c s1) = Some (src', s')"
    by (auto split: bind_splits)
  note fw = timeoutWait_frame [OF w] and a = readBlocking_avail [OF r]
  from Suc.IH [OF rest] have ih: "out s' = out (streamWrite c s1) @ take n (avail src1)"
    "avail src' = drop n (avail src1)" "n \<le> length (avail src1)"
    "settings s' = settings (streamWrite c s1)" "resumeTime s' = resumeTime (streamWrite c s1)"
    by simp_all
  have "out s' = out s @ take (Suc n) (avail src)" using ih(1) fw(2) a by (simp add: streamWrite_def)
  moreover have "avail src' = drop (Suc n) (avail src)" using ih(2) a by simp
  moreover have "Suc n \<le> length (avail src)" using ih(3) a by simp
  moreover have "settings s' = settings s" using ih(4) fw(1) by (simp add: streamWrite_def settings_upd)
  moreover have "resumeTime s' = resumeTime s" using ih(5) fw(4) by (simp add: streamWrite_def)
  ultimately show ?case by simp
qed

lemma recvRows_result:
  assumes "recvRows y rbc skip src s = Some (src', s')"
    "avail src = drop i (avail src0)" "i \<le> length (avail src0)"
  shows "out s' = out s @ concat (map (\<lambda>k. take rbc (drop (i + k * (rbc + skip)) (avail src0))) [0..<y])
         \<and> avail src' = drop (i + y * (rbc + skip)) (avail src0)
         \<and> i + y * (rbc + skip) \<le> length (avail src0)
         \<and> settings s' = settings s \<and> resumeTime s' = resumeTime s"
  using assms
proof (induction y arbitrary: src s i)
  case 0
  then show ?case by simp
next
  case (Suc y)
  from Suc.prems(1) obtain src1 s1 src2 where r: "recvRow rbc src s = Some (src1, s1)"
    and dsc: "discardBytes skip src1 = Some src2"
    and rest: "recvRows y rbc skip src2 s1 = Some (src', s')"
    by (auto split: bind_splits)
  note fr = recvRow_result [OF r] and fd = discardBytes_avail [OF dsc]
  from fr fd Suc.prems(2) have a2: "avail src2 = drop (i + (rbc + skip)) (avail src0)"
    by (simp add: add.commute add.left_commute)
  from fr fd Suc.prems(2,3) have b2: "i + (rbc + skip) \<le> length (avail src0)" by auto
  from Suc.IH [OF rest a2 b2] have ih:
    "out s' = out s1 @ concat (map (\<lambda>k. take rbc (drop (i + (rbc + skip) + k * (rbc + skip)) (avail src0))) [0..<y])"
    "avail src' = drop (i + (rbc + skip) + y * (rbc + skip)) (avail src0)"
    "i + (rbc + skip) + y * (rbc + skip) \<le> length (avail src0)"
    "settings s' = settings s1" "resumeTime s' = resumeTime s1" by simp_all
  have o1: "out s1 = out s @ take rbc (drop i (avail src0))" using fr Suc.prems(2) by simp
  have c: "concat (map (\<lambda>k. take rbc (drop (i + k * (rbc + skip)) (avail src0))) [0..<Suc y]) =
     take rbc (drop i (avail src0)) @
       concat (map (\<lambda>k. take rbc (drop (i + (rbc + skip) + k * (rbc + skip)) (avail src0))) [0..<y])"
    by (rule concat_rows_Suc [of "\<lambda>j. take rbc (drop j (avail src0))" i "rbc + skip" y])
  have "out s' = out s @ concat (map (\<lambda>k. take rbc (drop (i + k * (rbc + skip)) (avail src0))) [0..<Suc y])"
    using ih(1) o1 by (simp only: c) simp
  moreover have "avail src' = drop (i + Suc y * (rbc + skip)) (avail src0)"
    using ih(2) by (simp add: algebra_simps)
  moreover have "i + Suc y * (rbc + skip) \<le> length (avail src0)"
    using ih(3) by (simp add: algebra_simps)
  moreover have "settings s' = settings s" "resumeTime s' = resumeTime s"
    using ih(4,5) fr by simp_all
  ultimately show ?case by blast
qed

lemma recvChunks_done:
  "\<not> rowStart < h \<Longrightarrow> recvChunks rowStart h l rb rbc src s = Some (src, s)"
  by (subst recvChunks.simps) simp

lemma recvChunks_chunk:
  assumes "recvChunks rowStart h l rb rbc src s = Some (src', s')" "rowStart < h"
    "avail src = drop i (avail src0)" "i \<le> length (avail src0)"
  shows "\<exists>src3 s3. out s3 = out s @ [18, 42, word_of_int (chunkHeightOf h rowStart l), word_of_int rbc]
             @ concat (map (\<lambda>k. take (nat rbc) (drop (i + k * (nat rbc + nat (rb - rbc))) (avail src0)))
                 [0..<nat (chunkHeightOf h rowStart l)])
           \<and> settings s3 = settings s
           \<and> avail src3 = drop (i + nat (chunkHeightOf h rowStart l) * (nat rbc + nat (rb - rbc)))
                 (avail src0)
           \<and> i + nat (chunkHeightOf h rowStart l) * (nat rbc + nat (rb - rbc)) \<le> length (avail src0)
           \<and> recvChunks (rowStart + l) h l rb rbc src3 s3 = Some (src', s')"
proof -
  let ?ch = "chunkHeightOf h rowStart l"
  from assms(1,2) have u: "Option.bind
             (writeBytes [18, 42, word_of_int ?ch, word_of_int rbc] s)
             (\<lambda>s1. Option.bind
                (recvRows (nat ?ch) (nat rbc) (nat (rb - rbc)) src s1)
                (\<lambda>r. Option.bind
                   (timeoutSet (word_of_int ?ch * dotPrintTime (snd r)) (snd r))
                   (\<lambda>s3. recvChunks (rowStart + l) h l rb rbc (fst r) s3))) = Some (src', s')"
    by (subst (asm) recvChunks.simps) simp
  then obtain s1 where w: "writeBytes [18, 42, word_of_int ?ch, word_of_int rbc] s = Some s1"
    and u1: "Option.bind
                (recvRows (nat ?ch) (nat rbc) (nat (rb - rbc)) src s1)
                (\<lambda>r. Option.bind
                   (timeoutSet (word_of_int ?ch * dotPrintTime (snd r)) (snd r))
                   (\<lambda>s3. recvChunks (rowStart + l) h l rb rbc (fst r) s3)) = Some (src', s')"
    by (auto simp: bind_eq_Some_conv)
  then obtain src2 s2 where r: "recvRows (nat ?ch) (nat rbc) (nat (rb - rbc)) src s1 = Some (src2, s2)"
    and u2: "Option.bind (timeoutSet (word_of_int ?ch * dotPrintTime s2) s2)
                   (\<lambda>s3. recvChunks (rowStart + l) h l rb rbc src2 s3) = Some (src', s')"
    by (auto simp: bind_eq_Some_conv)
  then obtain s3 where t: "timeoutSet (word_of_int ?ch * dotPrintTime s2) s2 = Some s3"
    and rest: "recvChunks (rowStart + l) h l rb rbc src2 s3 = Some (src', s')"
    by (auto simp: bind_eq_Some_conv)
  note fw = writeBytes_frame [OF w] and fr = recvRows_result [OF r assms(3,4)]
    and ft = timeoutSet_frame [OF t]
  have "out s3 = out s @ [18, 42, word_of_int ?ch, word_of_int rbc]
             @ concat (map (\<lambda>k. take (nat rbc) (drop (i + k * (nat rbc + nat (rb - rbc))) (avail src0)))
                 [0..<nat ?ch])"
    using fw(2) fr ft(2) by simp
  moreover have "settings s3 = settings s" using fw(1) fr ft(1) by simp
  ultimately show ?thesis using fr rest by blast
qed

lemma printBitmapStream_400x10_out:
  assumes "printBitmapStream 400 10 src s = Some (src', s')" "\<not> dtrEnabled s"
    "maxChunkHeight s = 255"
  shows "out s' = out s
           @ [18, 42, 5, 48] @ concat (map (\<lambda>k. take 48 (drop (k * 50) (avail src))) [0..<5])
           @ [18, 42, 5, 48] @ concat (map (\<lambda>k. take 48 (drop (250 + k * 50) (avail src))) [0..<5])"
    "avail src' = drop 500 (avail src)" "500 \<le> length (avail src)" "prevByte s' = 10"
proof -
  from assms obtain s0 where c: "recvChunks 0 10 5 50 48 src s = Some (src', s0)"
    and e: "s' = s0\<lparr>prevByte := 10\<rparr>"
    by (auto simp: printBitmapStream_def geometry_400 Let_def)
  have a0: "avail src = drop 0 (avail src)" "0 \<le> length (avail src)" by simp_all
  from recvChunks_chunk [OF c _ a0] obtain src3 s3 where
    o3: "out s3 = out s @ [18, 42, 5, 48]
           @ concat (map (\<lambda>k. take 48 (drop (k * 50) (avail src))) [0..<5])"
    and a3: "avail src3 = drop 250 (avail src)" "250 \<le> length (avail src)"
    and c3: "recvChunks 5 10 5 50 48 src3 s3 = Some (src', s0)"
    by (auto simp: geometry_400 simp del: upt_Suc)
  from recvChunks_chunk [OF c3 _ a3] obtain src6 s6 where
    o6: "out s6 = out s3 @ [18, 42, 5, 48]
           @ concat (map (\<lambda>k. take 48 (drop (250 + k * 50) (avail src))) [0..<5])"
    and a6: "avail src6 = drop 500 (avail src)" "500 \<le> length (avail src)"
    and c6: "recvChunks 10 10 5 50 48 src6 s6 = Some (src', s0)"
    by (auto simp: geometry_400 simp del: upt_Suc)
  from c6 have "src6 = src'" "s6 = s0" by (simp_all add: recvChunks_done)
  with o3 o6 e a6 show "out s' = out s
           @ [18, 42, 5, 48] @ concat (map (\<lambda>k. take 48 (drop (k * 50) (avail src))) [0..<5])
           @ [18, 42, 5, 48] @ concat (map (\<lambda>k. take 48 (drop (250 + k * 50) (avail src))) [0..<5])"
    "avail src' = drop 500 (avail src)" "500 \<le> length (avail src)"
    by (simp_all del: upt_Suc)
  from e show "prevByte s' = 10" by simp
qed

lemma steady_recvRow:
  assumes "steady X s" "n \<le> length (ticks s)" "n \<le> length (avail src)"
  shows "\<exists>src' s'. recvRow n src s = Some (src', s') \<and> steady X s' \<and>
           ticks s' = drop n (ticks s) \<and> settings s' = settings s \<and>
           avail src' = drop n (avail src)"
  using assms
proof (induction n arbitrary: src s)
  case 0
  then show ?case by simp
next
  case (Suc n)
  from Suc.prems(3) have "avail src \<noteq> []" by auto
  from readBlocking_total [OF this] obtain c src1 where rb: "readBlocking src = Some (c, src1)"
    by blast
  note a = readBlocking_avail [OF rb]
  from Suc.prems(2) obtain t ts where tk: "ticks s = t # ts" by (cases "ticks s") auto
  note w = steady_wait [OF Suc.prems(1) tk]
  let ?s1 = "streamWrite c (s\<lparr>ticks := ts\<rparr>)"
  have st: "steady X ?s1" using w(2) by (simp add: steady_streamWrite)
  have l: "n \<le> length (ticks ?s1)" using Suc.prems(2) tk by (simp add: streamWrite_def)
  have b: "n \<le> length (avail src1)" using Suc.prems(3) a by simp
  from Suc.IH [OF st l b] obtain src' s' where
    r: "recvRow n src1 ?s1 = Some (src', s')" and st': "steady X s'"
    and tk': "ticks s' = drop n (ticks ?s1)" and se: "settings s' = settings ?s1"
    and a': "avail src' = drop n (avail src1)" by blast
  have "recvRow (Suc n) src s = Some (src', s')" using rb w(1) r by simp
  moreover have "ticks s' = drop (Suc n) (ticks s)" using tk' tk by (simp add: streamWrite_def)
  moreover have "settings s' = settings s" using se by (simp add: streamWrite_def settings_upd)
  moreover have "avail src' = drop (Suc n) (avail src)" using a' a by simp
  ultimately show ?case using st' by blast
qed

lemma steady_recvRows:
  assumes "steady X s" "y * rbc \<le> length (ticks s)" "y * (rbc + skip) \<le> length (avail src)"
  shows "\<exists>src' s'. recvRows y rbc skip src s = Some (src', s') \<and> steady X s' \<and>
           ticks s' = drop (y * rbc) (ticks s) \<and> settings s' = settings s \<and>
           avail src' = drop (y * (rbc + skip)) (avail src)"
  using assms
proof (induction y arbitrary: src s)
  case 0
  then show ?case by simp
next
  case (Suc y)
  from Suc.prems(2) have l1: "rbc \<le> length (ticks s)" by simp
  from Suc.prems(3) have b1: "rbc \<le> length (avail src)" by simp
  from steady_recvRow [OF Suc.prems(1) l1 b1] obtain src1 s1 where
    r: "recvRow rbc src s = Some (src1, s1)" and st1: "steady X s1"
    and tk1: "ticks s1 = drop rbc (ticks s)" and se1: "settings s1 = settings s"
    and a1: "avail src1 = drop rbc (avail src)" by blast
  from Suc.prems(3) a1 have "skip \<le> length (avail src1)" by simp
  from discardBytes_total [OF this] obtain src2 where d: "discardBytes skip src1 = Some src2"
    by blast
  from discardBytes_avail [OF d] a1 have a2: "avail src2 = drop (rbc + skip) (avail src)"
    by (simp add: add.commute)
  have l: "y * rbc \<le> length (ticks s1)" using Suc.prems(2) tk1 by simp
  have b: "y * (rbc + skip) \<le> length (avail src2)" using Suc.prems(3) a2 by simp
  from Suc.IH [OF st1 l b] obtain src' s' where
    rs: "recvRows y rbc skip src2 s1 = Some (src', s')"
    and st': "steady X s'" and tk': "ticks s' = drop (y * rbc) (ticks s1)"
    and se': "settings s' = settings s1"
    and a': "avail src' = drop (y * (rbc + skip)) (avail src2)" by blast
  have "recvRows (Suc y) rbc skip src s = Some (src', s')" using r d rs by simp
  moreover have "ticks s' = drop (Suc y * rbc) (ticks s)"
    using tk' tk1 by (simp add: add.commute)
  moreover have "avail src' = drop (Suc y * (rbc + skip)) (avail src)"
    using a' a2 by (simp add: add.commute)
  ultimately show ?case using st' se' se1 by auto
qed

lemma steady_recvChunk:
  assumes "rowStart < h" "steady X s" "4584 \<le> X"
    "unat (word_of_int (chunkHeightOf h rowStart l) * dotPrintTime s) \<le> X"
    "3 + nat (chunkHeightOf h rowStart l) * nat rbc \<le> length (ticks s)"
    "nat (chunkHeightOf h rowStart l) * (nat rbc + nat (rb - rbc)) \<le> length (avail src)"
  shows "\<exists>src3 s3. recvChunks rowStart h l rb rbc src s =
               recvChunks (rowStart + l) h l rb rbc src3 s3
             \<and> steady X s3 \<and> settings s3 = settings s
             \<and> ticks s3 = drop (3 + nat (chunkHeightOf h rowStart l) * nat rbc) (ticks s)
             \<and> avail src3 =
                 drop (nat (chunkHeightOf h rowStart l) * (nat rbc + nat (rb - rbc))) (avail src)"
proof -
  let ?ch = "chunkHeightOf h rowStart l"
  from assms(5) have l2: "2 \<le> length (ticks s)" by simp
  from steady_writeBytes_ex [OF assms(2) l2, of "[18, 42, word_of_int ?ch, word_of_int rbc]"]
    assms(3)
  obtain s1 where w: "writeBytes [18, 42, word_of_int ?ch, word_of_int rbc] s = Some s1"
    and st1: "steady X s1" and tk1: "ticks s1 = drop 2 (ticks s)" by auto
  note e1 = writeBytes_frame(1) [OF w]
  have lr: "nat ?ch * nat rbc \<le> length (ticks s1)" using assms(5) tk1 by simp
  from steady_recvRows [OF st1 lr assms(6)] obtain src2 s2 where
    r: "recvRows (nat ?ch) (nat rbc) (nat (rb - rbc)) src s1 = Some (src2, s2)"
    and st2: "steady X s2" and tk2: "ticks s2 = drop (nat ?ch * nat rbc) (ticks s1)"
    and e2: "settings s2 = settings s1"
    and a2: "avail src2 = drop (nat ?ch * (nat rbc + nat (rb - rbc))) (avail src)" by blast
  have tk2': "ticks s2 = drop (2 + nat ?ch * nat rbc) (ticks s)"
    using tk2 tk1 by (simp add: add.commute)
  with assms(5) have "1 \<le> length (ticks s2)" by simp
  then obtain t ts where tk2c: "ticks s2 = t # ts" by (cases "ticks s2") auto
  have "dotPrintTime s2 = dotPrintTime s"
    using settings_fields(4) [OF e2] settings_fields(4) [OF e1] by simp
  with assms(4) have d: "unat (word_of_int ?ch * dotPrintTime s2) \<le> X" by simp
  note ss = steady_set [OF st2 tk2c d]
  let ?s3 = "s2\<lparr>ticks := ts, resumeTime := t + word_of_int ?ch * dotPrintTime s2\<rparr>"
  have "recvChunks rowStart h l rb rbc src s = recvChunks (rowStart + l) h l rb rbc src2 ?s3"
    using assms(1) w r ss(1) by (subst recvChunks.simps) simp
  moreover have "settings ?s3 = settings s" using e1 e2 by (simp add: settings_upd)
  moreover have "ticks ?s3 = drop (3 + nat ?ch * nat rbc) (ticks s)"
  proof -
    from tk2' tk2c have "drop (2 + nat ?ch * nat rbc) (ticks s) = t # ts" by simp
    from drop_next [OF this] show ?thesis by (simp add: numeral_3_eq_3)
  qed
  ultimately show ?thesis using ss(2) a2 by blast
qed

lemma steady_printBitmapStream_400x10:
  assumes "steady X s" "maxChunkHeight s = 255" "486 \<le> length (ticks s)" "4584 \<le> X"
    "unat (5 * dotPrintTime s) \<le> X" "500 \<le> length (avail src)"
  shows "\<exists>src' s'. printBitmapStream 400 10 src s = Some (src', s')"
proof -
  from assms(1) have nd: "\<not> dtrEnabled s" by (simp add: steady_def)
  have "\<exists>src3 s3. recvChunks 0 10 5 50 48 src s = recvChunks 5 10 5 50 48 src3 s3
          \<and> steady X s3 \<and> settings s3 = settings s \<and> ticks s3 = drop 243 (ticks s)
          \<and> avail src3 = drop 250 (avail src)"
    using steady_recvChunk [of 0 10 X s 5 48 50 src] assms
    by (simp add: geometry_400)
  then obtain src3 s3 where c1: "recvChunks 0 10 5 50 48 src s = recvChunks 5 10 5 50 48 src3 s3"
    and st3: "steady X s3" and e3: "settings s3 = settings s" and tk3: "ticks s3 = drop 243 (ticks s)"
    and a3: "avail src3 = drop 250 (avail src)"
    by blast
  have d3: "dotPrintTime s3 = dotPrintTime s" by (rule settings_fields(4) [OF e3])
  have l3: "243 \<le> length (ticks s3)" using tk3 assms(3) by simp
  have b3: "250 \<le> length (avail src3)" using a3 assms(6) by simp
  have "\<exists>src6 s6. recvChunks 5 10 5 50 48 src3 s3 = recvChunks 10 10 5 50 48 src6 s6"
    using steady_recvChunk [of 5 10 X s3 5 48 50 src3] assms(4,5) st3 l3 d3 b3
    by (auto simp: geometry_400)
  then obtain src6 s6 where c2: "recvChunks 5 10 5 50 48 src3 s3 = recvChunks 10 10 5 50 48 src6 s6"
    by blast
  have "recvChunks 0 10 5 50 48 src s = Some (src6, s6)"
    using c1 c2 by (simp add: recvChunks_done)
  then show ?thesis using nd assms(2) by (simp add: printBitmapStream_def geometry_400 Let_def)
qed

lemma avail_replicate_Some: "avail (replicate n (Some b)) = replicate n b"
  by (induction n) simp_all

section \<open>The claims\<close>

subsection \<open>C1: byte time and the deadline after a command write\<close>

text \<open>
  C1. The time to issue one byte is \<open>(11,000,000 + rate/2) / rate\<close> microseconds by
  integer division, that is, rounded down: it is the largest integer whose product with
  the rate does not exceed \<open>11,000,000 + rate div 2\<close>; at 9600 baud it is 1146. After
  a command write of \<open>N\<close> bytes without handshake (\<^verbatim>\<open>writeBytes\<close> for any number of bytes,
  and the three bytes of \<^verbatim>\<open>writeCmdBytes\<close>), the deadline recorded is the clock reading
  \<open>now\<close> taken by \<^verbatim>\<open>timeoutSet\<close> (the last reading the call took) plus \<open>N\<close> times that value,
  in the 32-bit arithmetic of the clock; so it is not before \<open>now + N * BYTE_TIME\<close> in
  the rollover-proof comparison the driver uses. On a steady clock the write returns,
  having taken two readings.
\<close>

theorem byte_time_deadline:
  "BYTE_TIME = (11000000 + BAUDRATE div 2) div BAUDRATE
   \<and> (0 < rate \<longrightarrow>
        byteTime rate * rate \<le> 11000000 + rate div 2
        \<and> 11000000 + rate div 2 < (byteTime rate + 1) * rate)
   \<and> (\<not> dtrEnabled s \<and> writeBytes bs s = Some s' \<longrightarrow>
        (\<exists>pre now. ticks s = pre @ now # ticks s'
           \<and> resumeTime s' = now + word_of_int (int (length bs) * BYTE_TIME)
           \<and> 0 \<le> sint (resumeTime s' - (now + word_of_int (int (length bs) * BYTE_TIME)))))
   \<and> (\<not> dtrEnabled s \<and> writeCmdBytes a b c d s = Some s' \<longrightarrow>
        (\<exists>pre now. ticks s = pre @ now # ticks s'
           \<and> resumeTime s' = now + word_of_int (3 * BYTE_TIME)
           \<and> 0 \<le> sint (resumeTime s' - (now + word_of_int (3 * BYTE_TIME)))))
   \<and> (steady X s \<and> ticks s = t1 # t2 # ts \<and> length bs * 1146 \<le> X \<longrightarrow>
        (\<exists>s''. writeBytes bs s = Some s''
           \<and> resumeTime s'' = t2 + word_of_int (int (length bs) * BYTE_TIME)))"
proof (intro conjI impI)
  show "BYTE_TIME = (11000000 + BAUDRATE div 2) div BAUDRATE"
    by (simp add: BYTE_TIME_def byteTime_def)
next
  assume r: "0 < rate"
  have "byteTime rate * rate = (11000000 + rate div 2) - (11000000 + rate div 2) mod rate"
    by (simp add: byteTime_def minus_mod_eq_div_mult)
  moreover have "0 \<le> (11000000 + rate div 2) mod rate" "(11000000 + rate div 2) mod rate < rate"
    using r by simp_all
  ultimately show "byteTime rate * rate \<le> 11000000 + rate div 2"
    and "11000000 + rate div 2 < (byteTime rate + 1) * rate"
    by (simp_all add: algebra_simps)
next
  assume "\<not> dtrEnabled s \<and> writeBytes bs s = Some s'"
  then show "\<exists>pre now. ticks s = pre @ now # ticks s'
           \<and> resumeTime s' = now + word_of_int (int (length bs) * BYTE_TIME)
           \<and> 0 \<le> sint (resumeTime s' - (now + word_of_int (int (length bs) * BYTE_TIME)))"
    using writeBytes_deadline [of bs s s'] by auto
next
  assume "\<not> dtrEnabled s \<and> writeCmdBytes a b c d s = Some s'"
  then show "\<exists>pre now. ticks s = pre @ now # ticks s'
           \<and> resumeTime s' = now + word_of_int (3 * BYTE_TIME)
           \<and> 0 \<le> sint (resumeTime s' - (now + word_of_int (3 * BYTE_TIME)))"
    using writeCmdBytes_deadline [of a b c d s s'] by auto
next
  assume "steady X s \<and> ticks s = t1 # t2 # ts \<and> length bs * 1146 \<le> X"
  then show "\<exists>s''. writeBytes bs s = Some s''
           \<and> resumeTime s'' = t2 + word_of_int (int (length bs) * BYTE_TIME)"
    using steady_writeBytes(1) [of X s t1 t2 ts bs] by simp
qed

theorem byte_time_deadline_witness:
  "BYTE_TIME = 1146
   \<and> byteTime 19200 = 573
   \<and> writeBytes [27, 64] (fresh [0, 5000, 10000]) =
       Some ((fresh [0, 5000, 10000])\<lparr>out := [27, 64], ticks := [10000], resumeTime := 7292\<rparr>)
   \<and> writeCmdBytes 16 4 1 True (fresh [700]) =
       Some ((fresh [700])\<lparr>out := [16, 4, 1], ticks := [], resumeTime := 4138\<rparr>)
   \<and> steady 4000 (fresh [0, 5000, 10000])"
  using byte_time_deadline [where rate = 19200 and s = "fresh [0, 5000, 10000]"
      and bs = "[27, 64]" and X = 4000 and ?t1.0 = 0 and ?t2.0 = 5000 and ts = "[10000]"
      and s' = "(fresh [0, 5000, 10000])\<lparr>out := [27, 64], ticks := [10000], resumeTime := 7292\<rparr>"]
    byte_time_deadline [where s = "fresh [700]" and a = 16 and b = 4 and c = 1 and d = True
      and s' = "(fresh [700])\<lparr>out := [16, 4, 1], ticks := [], resumeTime := 4138\<rparr>"]
  by (simp add: fresh_def steady_def BYTE_TIME_val byteTime_def writeBytes_def writeCmdBytes_def
      timeoutWait_def timeoutSet_def micros_def fold_streamWrite streamWrite_def BAUDRATE_def)

subsection \<open>C8: the deadline and the handshake\<close>

text \<open>
  C8. With the handshake enabled, \<^verbatim>\<open>timeoutSet\<close> changes nothing, whatever the duration:
  in particular the deadline stays. Without it, \<^verbatim>\<open>timeoutSet\<close> takes the clock reading
  \<open>now\<close> and replaces the deadline by \<open>now + duration\<close>, whatever it was. \<^verbatim>\<open>timeoutWait\<close>
  with the handshake enabled does not read the deadline: run from an object whose
  deadline is replaced by any \<open>r\<close>, it does the same thing (and polls only the pin);
  without the handshake it polls the clock against the deadline.
\<close>

theorem timeoutSet_handshake_gate:
  "(dtrEnabled s \<longrightarrow> timeoutSet x s = Some s)
   \<and> (\<not> dtrEnabled s \<and> ticks s = now # ts \<longrightarrow>
        timeoutSet x s = Some (s\<lparr>ticks := ts, resumeTime := now + x\<rparr>))
   \<and> (dtrEnabled s \<longrightarrow>
        timeoutWait (s\<lparr>resumeTime := r\<rparr>) =
          map_option (\<lambda>s'. s'\<lparr>resumeTime := r\<rparr>) (timeoutWait s))
   \<and> (\<not> dtrEnabled s \<longrightarrow>
        timeoutWait s =
          map_option (\<lambda>ts. s\<lparr>ticks := ts\<rparr>) (waitClock (resumeTime s) (ticks s)))"
proof (intro conjI impI)
  assume "dtrEnabled s"
  then show "timeoutSet x s = Some s" by (rule timeoutSet_dtr)
next
  assume "\<not> dtrEnabled s \<and> ticks s = now # ts"
  then show "timeoutSet x s = Some (s\<lparr>ticks := ts, resumeTime := now + x\<rparr>)"
    by (simp add: timeoutSet_timing)
next
  assume "dtrEnabled s"
  then show "timeoutWait (s\<lparr>resumeTime := r\<rparr>) =
          map_option (\<lambda>s'. s'\<lparr>resumeTime := r\<rparr>) (timeoutWait s)"
    by (cases "waitPin (pin s)") (simp_all add: timeoutWait_def)
next
  assume "\<not> dtrEnabled s"
  then show "timeoutWait s =
          map_option (\<lambda>ts. s\<lparr>ticks := ts\<rparr>) (waitClock (resumeTime s) (ticks s))"
    by (simp add: timeoutWait_def)
qed

theorem timeoutSet_handshake_gate_witness:
  "timeoutSet 7 ((fresh [5, 9])\<lparr>pin := [True, False], dtrEnabled := True\<rparr>) =
     Some ((fresh [5, 9])\<lparr>pin := [True, False], dtrEnabled := True\<rparr>)
   \<and> timeoutSet 7 ((fresh [5, 9])\<lparr>resumeTime := 3\<rparr>) =
       Some ((fresh [5, 9])\<lparr>ticks := [9], resumeTime := 12\<rparr>)
   \<and> timeoutWait ((fresh [5, 9])\<lparr>pin := [True, False], dtrEnabled := True, resumeTime := 1000\<rparr>) =
       Some ((fresh [5, 9])\<lparr>pin := [], dtrEnabled := True, resumeTime := 1000\<rparr>)
   \<and> timeoutWait ((fresh [5, 9])\<lparr>resumeTime := 8\<rparr>) =
       Some ((fresh [5, 9])\<lparr>ticks := [], resumeTime := 8\<rparr>)"
  using timeoutSet_handshake_gate
      [of "(fresh [5, 9])\<lparr>pin := [True, False], dtrEnabled := True\<rparr>" 7 5 "[9]" 1000]
    timeoutSet_handshake_gate [of "(fresh [5, 9])\<lparr>resumeTime := 3\<rparr>" 7 5 "[9]" 0]
    timeoutSet_handshake_gate [of "(fresh [5, 9])\<lparr>resumeTime := 8\<rparr>" 7 5 "[9]" 0]
  by (simp add: fresh_def timeoutWait_def)

subsection \<open>C3: the character metrics\<close>

text \<open>
  C3. The metrics are a function of the font id (bits 0 to 2 of \<^verbatim>\<open>fontData\<close>) and of the
  double-width and double-height flags of \<^verbatim>\<open>printMode\<close> alone: the base size is 12x24
  for font 0 (and for an id above 4), 9x24 for 1, 9x17 for 2, 8x16 for 3 and 16x16 for 4,
  double width doubles the width, double height doubles the height, and \<^verbatim>\<open>maxColumn\<close> is
  384 divided by the resulting width. The field updates of \<^verbatim>\<open>adjustCharValues\<close> are total;
  the commands that follow leave the three values as they are when the function returns,
  and on a steady clock with six readings to come it does return, as does \<^verbatim>\<open>setFont\<close>.
  After \<^verbatim>\<open>setFont('C')\<close> with no double mode the width is 9, the height 17 and
  \<^verbatim>\<open>maxColumn\<close> 42.
\<close>

theorem char_metrics_table:
  "(let f = fontData s AND 7;
        bw = (if f = 1 then 9 else if f = 2 then 9 else if f = 3 then 8
              else if f = 4 then 16 else 12);
        bh = (if f = 1 then 24 else if f = 2 then 17 else if f = 3 then 16
              else if f = 4 then 16 else 24)
    in charWidth (adjustCharFields s) = (if printMode s AND 32 \<noteq> 0 then 2 * bw else bw)
       \<and> charHeight (adjustCharFields s) = (if printMode s AND 16 \<noteq> 0 then 2 * bh else bh))
   \<and> uint (maxColumn (adjustCharFields s)) = 384 div uint (charWidth (adjustCharFields s))
   \<and> (adjustCharValues s = Some s' \<longrightarrow>
        charWidth s' = charWidth (adjustCharFields s)
        \<and> charHeight s' = charHeight (adjustCharFields s)
        \<and> maxColumn s' = maxColumn (adjustCharFields s))
   \<and> (printMode s AND 48 = 0 \<and> setFont 67 s = Some s' \<longrightarrow>
        charWidth s' = 9 \<and> charHeight s' = 17 \<and> maxColumn s' = 42)
   \<and> (steady X s \<and> 6 \<le> length (ticks s) \<and> 4584 \<le> X \<longrightarrow>
        (\<exists>s''. adjustCharValues s = Some s'') \<and> (\<exists>s''. setFont font s = Some s''))"
proof (intro conjI impI)
  show "let f = fontData s AND 7;
        bw = (if f = 1 then 9 else if f = 2 then 9 else if f = 3 then 8
              else if f = 4 then 16 else 12);
        bh = (if f = 1 then 24 else if f = 2 then 17 else if f = 3 then 16
              else if f = 4 then 16 else 24)
    in charWidth (adjustCharFields s) = (if printMode s AND 32 \<noteq> 0 then 2 * bw else bw)
       \<and> charHeight (adjustCharFields s) = (if printMode s AND 16 \<noteq> 0 then 2 * bh else bh)"
    by (simp add: adjustCharFields_width adjustCharFields_height Let_def)
next
  show "uint (maxColumn (adjustCharFields s)) = 384 div uint (charWidth (adjustCharFields s))"
    by (rule adjustCharFields_maxColumn)
next
  assume a: "adjustCharValues s = Some s'"
  note e = settings_fields [OF adjustCharValues_frame(1) [OF a]]
  show "charWidth s' = charWidth (adjustCharFields s)" by (rule e)
  show "charHeight s' = charHeight (adjustCharFields s)" by (rule e)
  show "maxColumn s' = maxColumn (adjustCharFields s)" by (rule e)
next
  assume a: "printMode s AND 48 = 0 \<and> setFont 67 s = Some s'"
  let ?s = "s\<lparr>fontData := (fontData s AND 248) OR 2\<rparr>"
  have pm: "printMode s AND 32 = 0" "printMode s AND 16 = 0"
  proof -
    have "printMode s AND 32 = (printMode s AND 48) AND 32" "printMode s AND 16 = (printMode s AND 48) AND 16"
      by (simp_all add: and.assoc)
    with a show "printMode s AND 32 = 0" "printMode s AND 16 = 0" by simp_all
  qed
  from a have r: "adjustCharValues ?s = Some s'"
    by (simp add: setFont_font toupper_def)
  note e = settings_fields [OF adjustCharValues_frame(1) [OF r]]
  have f: "fontData ?s AND 7 = 2" by (simp add: font_bits)
  have "charWidth (adjustCharFields ?s) = 9" "charHeight (adjustCharFields ?s) = 17"
    using f pm by (simp_all add: adjustCharFields_width adjustCharFields_height Let_def)
  moreover from this adjustCharFields_maxColumn [of ?s]
  have "maxColumn (adjustCharFields ?s) = 42"
    by (simp add: word_uint_eq_iff)
  ultimately show "charWidth s' = 9" "charHeight s' = 17" "maxColumn s' = 42"
    using e by simp_all
next
  assume a: "steady X s \<and> 6 \<le> length (ticks s) \<and> 4584 \<le> X"
  then show "\<exists>s''. adjustCharValues s = Some s''"
    using steady_adjustCharValues [of X s] by auto
  let ?s = "s\<lparr>fontData := (fontData s AND 248) OR
      (if 65 \<le> font then (if 69 < toupper font then 0 else toupper font - 65)
       else if 4 < font then 0 else font)\<rparr>"
  from a have "steady X ?s" "6 \<le> length (ticks ?s)" by (simp_all add: steady_def)
  from steady_adjustCharValues [OF this] a
  obtain s'' where "adjustCharValues ?s = Some s''" by blast
  then have "setFont font s = Some s''" by (simp only: setFont_font)
  then show "\<exists>s''. setFont font s = Some s''" by blast
qed

theorem char_metrics_table_witness:
  "map_option charWidth (setFont 67 (fresh (tickList 0 5000 6))) = Some 9
   \<and> map_option charHeight (setFont 67 (fresh (tickList 0 5000 6))) = Some 17
   \<and> map_option maxColumn (setFont 67 (fresh (tickList 0 5000 6))) = Some 42
   \<and> map_option (\<lambda>s'. (charWidth s', charHeight s', maxColumn s'))
       (adjustCharValues (fresh (tickList 0 5000 6))) = Some (12, 24, 32)"
proof -
  let ?s = "fresh (tickList 0 5000 6)"
  have st: "steady 5000 ?s \<and> 6 \<le> length (ticks ?s) \<and> (4584::nat) \<le> 5000"
    by (simp add: steady_fresh ticks_fresh length_tickList)
  have pm: "printMode ?s AND 48 = 0" by (simp add: fresh_def)
  from char_metrics_table [of ?s undefined 5000 67] st
  obtain s'' where r: "setFont 67 ?s = Some s''" by blast
  from char_metrics_table [of ?s undefined 5000 67] st
  obtain s1 where r1: "adjustCharValues ?s = Some s1" by blast
  from char_metrics_table [of ?s s'' 5000 67] pm r
  have "charWidth s'' = 9 \<and> charHeight s'' = 17 \<and> maxColumn s'' = 42" by blast
  moreover have "charWidth (adjustCharFields ?s) = 12" "charHeight (adjustCharFields ?s) = 24"
    "maxColumn (adjustCharFields ?s) = 32"
    by (simp_all add: adjustCharFields_def fresh_def Let_def fontStyleOf_def)
  with char_metrics_table [of ?s s1 5000 67] r1
  have "charWidth s1 = 12 \<and> charHeight s1 = 24 \<and> maxColumn s1 = 32" by simp
  ultimately show ?thesis using r r1 by simp
qed

subsection \<open>C9: feed on recent firmware\<close>

text \<open>
  C9. On firmware 264 or later, \<^verbatim>\<open>feed(x)\<close> sends \<^verbatim>\<open>ESC d x\<close>, sets the column to 0 and
  \<^verbatim>\<open>prevByte\<close> to the newline, and asks for a busy time of \<^verbatim>\<open>dotFeedTime * charHeight\<close>
  (32-bit product), whatever \<open>x\<close> is: without handshake the deadline is the clock reading
  taken by that \<^verbatim>\<open>timeoutSet\<close> plus this product, with handshake the deadline is not
  touched. Feeding another number of lines \<open>y\<close> from the same object gives the same
  object but for the byte \<open>y\<close> sent. On a steady clock with three readings to come the
  call returns.
\<close>

theorem feed_recent_firmware:
  "(264 \<le> firmware s \<and> feed x s = Some s' \<longrightarrow>
      column s' = 0 \<and> prevByte s' = ASCII_LF
      \<and> out s' = out s @ [ASCII_ESC, 100, x]
      \<and> (if dtrEnabled s then resumeTime s' = resumeTime s
          else \<exists>pre now. ticks s = pre @ now # ticks s'
                 \<and> resumeTime s' = now + dotFeedTime s * ucast (charHeight s))
      \<and> feed y s = Some (s'\<lparr>out := out s @ [ASCII_ESC, 100, y]\<rparr>))
   \<and> (264 \<le> firmware s \<and> steady X s \<and> 3 \<le> length (ticks s) \<and> 3438 \<le> X
        \<and> unat (dotFeedTime s * ucast (charHeight s)) \<le> X \<longrightarrow>
      (\<exists>s''. feed x s = Some s''))"
proof (intro conjI impI)
  assume a: "264 \<le> firmware s \<and> feed x s = Some s'"
  then have fw: "264 \<le> firmware s" and fd: "feed x s = Some s'" by simp_all
  from fd fw obtain s1 s2 where w: "writeBytes [27, 100, x] s = Some s1"
    and t: "timeoutSet (dotFeedTime s * ucast (charHeight s)) s1 = Some s2"
    and e: "s' = s2\<lparr>prevByte := 10, column := 0\<rparr>"
    by (rule feed_recent_split)
  note fw1 = writeBytes_frame [OF w] and ft = timeoutSet_frame [OF t]
  note f1 = settings_fields [OF fw1(1)]
  show "column s' = 0" "prevByte s' = ASCII_LF" using e by simp_all
  show "out s' = out s @ [ASCII_ESC, 100, x]" using e fw1(2) ft(2) by simp
  show "if dtrEnabled s then resumeTime s' = resumeTime s
        else \<exists>pre now. ticks s = pre @ now # ticks s'
               \<and> resumeTime s' = now + dotFeedTime s * ucast (charHeight s)"
  proof (cases "dtrEnabled s")
    case True
    from timeoutSet_cases [OF t] True f1(2) have "s2 = s1" by simp
    with e writeBytes_dtr_deadline(1) [OF w True] True show ?thesis by simp
  next
    case False
    from writeBytes_deadline [OF w False] obtain pre1 where p: "ticks s = pre1 @ ticks s1"
      by (metis append.assoc append_Cons append_Nil)
    from False f1(2) have "\<not> dtrEnabled s1" by simp
    from timeoutSet_deadline [OF t this] obtain now where
      "ticks s1 = now # ticks s2" "resumeTime s2 = now + dotFeedTime s * ucast (charHeight s)"
      by blast
    with p e False show ?thesis by auto
  qed
  from writeBytes_other_bytes [OF w, of "[27, 100, y]"]
  have w': "writeBytes [27, 100, y] s = Some (s1\<lparr>out := out s @ [27, 100, y]\<rparr>)" by simp
  have "feed y s = Some (s2\<lparr>out := out s @ [27, 100, y], prevByte := 10, column := 0\<rparr>)"
    using fw w' t f1(5,11) by (simp add: feed_def timeoutSet_out)
  then show "feed y s = Some (s'\<lparr>out := out s @ [ASCII_ESC, 100, y]\<rparr>)" using e by simp
next
  assume a: "264 \<le> firmware s \<and> steady X s \<and> 3 \<le> length (ticks s) \<and> 3438 \<le> X
        \<and> unat (dotFeedTime s * ucast (charHeight s)) \<le> X"
  then have l2: "2 \<le> length (ticks s)" and st: "steady X s" by simp_all
  from steady_writeBytes_ex [OF st l2, of "[27, 100, x]"] a
  obtain s1 where w: "writeBytes [27, 100, x] s = Some s1" and st1: "steady X s1"
    and tk: "ticks s1 = drop 2 (ticks s)" by auto
  note f1 = settings_fields [OF writeBytes_frame(1) [OF w]]
  from a have "3 \<le> length (ticks s)" by blast
  with tk have "1 \<le> length (ticks s1)" by simp
  then obtain t ts where tk1: "ticks s1 = t # ts"
    by (cases "ticks s1") auto
  from a f1 have "unat (dotFeedTime s1 * ucast (charHeight s1)) \<le> X" by simp
  from steady_set(1) [OF st1 tk1 this] w a
  show "\<exists>s''. feed x s = Some s''" by (simp add: feed_def)
qed

theorem feed_recent_firmware_witness:
  "map_option column (feed 2 (fresh (tickList 0 60000 3))) = Some 0
   \<and> map_option prevByte (feed 2 (fresh (tickList 0 60000 3))) = Some ASCII_LF
   \<and> map_option out (feed 2 (fresh (tickList 0 60000 3))) = Some [ASCII_ESC, 100, 2]
   \<and> map_option resumeTime (feed 9 (fresh (tickList 0 60000 3))) =
       map_option resumeTime (feed 2 (fresh (tickList 0 60000 3)))
   \<and> firmware (fresh (tickList 0 60000 3)) = 268"
proof -
  let ?s = "fresh (tickList 0 60000 3)"
  have h: "264 \<le> firmware ?s \<and> steady 60000 ?s \<and> 3 \<le> length (ticks ?s) \<and> (3438::nat) \<le> 60000
        \<and> unat (dotFeedTime ?s * ucast (charHeight ?s)) \<le> 60000"
    by (simp add: steady_fresh ticks_fresh length_tickList) (simp add: fresh_def)
  from feed_recent_firmware [of ?s 2 undefined undefined 60000] h
  obtain s'' where r: "feed 2 ?s = Some s''" by blast
  from feed_recent_firmware [of ?s 2 s'' 9 60000] h r
  have "column s'' = 0 \<and> prevByte s'' = ASCII_LF \<and> out s'' = out ?s @ [ASCII_ESC, 100, 2]
        \<and> feed 9 ?s = Some (s''\<lparr>out := out ?s @ [ASCII_ESC, 100, 9]\<rparr>)"
    by blast
  then show ?thesis using r by (simp add: fresh_def)
qed

subsection \<open>C10: setLineHeight\<close>

text \<open>
  C10, as amended. \<^verbatim>\<open>setLineHeight(val)\<close> switches \<^verbatim>\<open>autoLineHeight\<close> off, raises \<open>val\<close> to
  at least 20 and stores the raised value minus 20 in the byte \<^verbatim>\<open>lineSpacing\<close>: the
  field holds that difference modulo 256, which is the difference itself for every
  \<open>val\<close> up to 275 (and never negative). The last command sent is \<^verbatim>\<open>ESC 3\<close> with the low
  byte of the raised value. On a steady clock with six readings to come the call
  returns.
\<close>

theorem setLineHeight_effect:
  "(setLineHeight val s = Some s' \<longrightarrow>
      \<not> autoLineHeight s'
      \<and> lineSpacing s' = word_of_int (max val 20 - 20)
      \<and> uint (lineSpacing s') = (max val 20 - 20) mod 256
      \<and> (val \<le> 275 \<longrightarrow> uint (lineSpacing s') = max val 20 - 20)
      \<and> (\<exists>cmds. out s' = out s @ cmds @ [ASCII_ESC, 51, word_of_int (max val 20)]))
   \<and> (steady X s \<and> 6 \<le> length (ticks s) \<and> 4584 \<le> X \<longrightarrow>
        (\<exists>s''. setLineHeight val s = Some s''))"
proof (intro conjI impI)
  assume a: "setLineHeight val s = Some s'"
  note r = setLineHeight_result [OF a]
  show "\<not> autoLineHeight s'" by (rule r(1))
  show "lineSpacing s' = word_of_int (max val 20 - 20)" by (rule r(2))
  show m: "uint (lineSpacing s') = (max val 20 - 20) mod 256"
    by (simp only: r(2) uint_word_of_int) simp
  show "\<exists>cmds. out s' = out s @ cmds @ [ASCII_ESC, 51, word_of_int (max val 20)]" by (rule r(3))
  assume "val \<le> 275"
  then have "0 \<le> max val 20 - 20" "max val 20 - 20 < 256" by simp_all
  then show "uint (lineSpacing s') = max val 20 - 20" using m by simp
next
  assume "steady X s \<and> 6 \<le> length (ticks s) \<and> 4584 \<le> X"
  then show "\<exists>s''. setLineHeight val s = Some s''"
    using steady_setLineHeight [of X s val] by blast
qed

theorem setLineHeight_effect_witness:
  "map_option autoLineHeight (setLineHeight 30 (fresh (tickList 0 5000 6))) = Some False
   \<and> map_option lineSpacing (setLineHeight 30 (fresh (tickList 0 5000 6))) = Some 10
   \<and> map_option lineSpacing (setLineHeight 7 (fresh (tickList 0 5000 6))) = Some 0
   \<and> autoLineHeight (fresh (tickList 0 5000 6))"
proof -
  let ?s = "fresh (tickList 0 5000 6)"
  have h: "steady 5000 ?s \<and> 6 \<le> length (ticks ?s) \<and> (4584::nat) \<le> 5000"
    by (simp add: steady_fresh ticks_fresh length_tickList)
  from setLineHeight_effect [of 30 ?s undefined 5000] h
  obtain s1 where r1: "setLineHeight 30 ?s = Some s1" by blast
  from setLineHeight_effect [of 7 ?s undefined 5000] h
  obtain s2 where r2: "setLineHeight 7 ?s = Some s2" by blast
  from setLineHeight_effect [of 30 ?s s1 5000] r1
  have "\<not> autoLineHeight s1 \<and> lineSpacing s1 = 10" by simp
  moreover from setLineHeight_effect [of 7 ?s s2 5000] r2
  have "lineSpacing s2 = 0" by simp
  ultimately show ?thesis using r1 r2 by (simp add: fresh_def)
qed

text \<open>
  C10 as stated fails above 275: after \<^verbatim>\<open>setLineHeight(300)\<close> the field holds 24, not
  \<open>300 - 20 = 280\<close>.
\<close>

theorem setLineHeight_counterexample:
  "map_option (\<lambda>s'. uint (lineSpacing s')) (setLineHeight 300 (fresh (tickList 0 5000 6))) = Some 24
   \<and> max 300 20 - 20 = (280::int)"
proof -
  let ?s = "fresh (tickList 0 5000 6)"
  have "steady 5000 ?s" "6 \<le> length (ticks ?s)" "(4584::nat) \<le> 5000"
    by (simp_all add: steady_fresh ticks_fresh length_tickList)
  from steady_setLineHeight [OF this, of 300]
  obtain s1 where r1: "setLineHeight 300 ?s = Some s1" by blast
  from setLineHeight_result(2) [OF r1] have "lineSpacing s1 = 24" by simp
  then show ?thesis using r1 by simp
qed

subsection \<open>C6: paper\<close>

text \<open>
  C6, as amended. \<^verbatim>\<open>hasPaper\<close> requests status page 4 (\<^verbatim>\<open>DLE EOT 4\<close>) and takes as status
  the first byte found in at most ten polls, 255 when none is found. It returns false
  exactly when bits 5 and 6 of that byte are both set, that is, when the byte masked
  with \<^verbatim>\<open>0b01100000\<close> is \<^verbatim>\<open>0b01100000\<close>, whatever the other six bits are; it returns true
  for every other byte. With the handshake, or with one clock reading to come, the call
  returns.
\<close>

theorem hasPaper_mask:
  "(hasPaper s = Some (b, s') \<longrightarrow>
      b = (fst (pollStatus 10 (rx s)) AND 96 \<noteq> 96)
      \<and> b = (\<not> (bit (fst (pollStatus 10 (rx s))) 5 \<and> bit (fst (pollStatus 10 (rx s))) 6))
      \<and> out s' = out s @ [16, 4, 4])
   \<and> (dtrEnabled s \<or> ticks s \<noteq> [] \<longrightarrow> (\<exists>b' s''. hasPaper s = Some (b', s'')))
   \<and> pollStatus 10 (Some st # rxs) = (st, rxs)
   \<and> pollStatus 10 [] = (255, [])"
proof (intro conjI impI)
  assume a: "hasPaper s = Some (b, s')"
  note r = hasPaper_result [OF a]
  show "b = (fst (pollStatus 10 (rx s)) AND 96 \<noteq> 96)" by (rule r(1))
  then show "b = (\<not> (bit (fst (pollStatus 10 (rx s))) 5 \<and> bit (fst (pollStatus 10 (rx s))) 6))"
    by (simp add: and96)
  show "out s' = out s @ [16, 4, 4]" by (rule r(2))
next
  assume "dtrEnabled s \<or> ticks s \<noteq> []"
  then show "\<exists>b' s''. hasPaper s = Some (b', s'')" by (rule hasPaper_returns)
next
  show "pollStatus 10 (Some st # rxs) = (st, rxs)" by (simp add: numeral_eq_Suc)
  show "pollStatus 10 [] = (255, [])" by (simp add: numeral_eq_Suc)
qed

theorem hasPaper_mask_witness:
  "map_option fst (hasPaper ((fresh [0])\<lparr>rx := [None, Some 96]\<rparr>)) = Some False
   \<and> map_option fst (hasPaper ((fresh [0])\<lparr>rx := [None, Some 18]\<rparr>)) = Some True
   \<and> map_option fst (hasPaper (fresh [0])) = Some False"
proof -
  have p: "pollStatus 10 [None, Some 96] = (96, [])" "pollStatus 10 [None, Some 18] = (18, [])"
    "pollStatus 10 [] = (255, [])"
    by (simp_all add: numeral_eq_Suc)
  let ?a = "(fresh [0])\<lparr>rx := [None, Some 96]\<rparr>" and ?b = "(fresh [0])\<lparr>rx := [None, Some 18]\<rparr>"
  have h: "dtrEnabled ?a \<or> ticks ?a \<noteq> []" "dtrEnabled ?b \<or> ticks ?b \<noteq> []"
    "dtrEnabled (fresh [0]) \<or> ticks (fresh [0]) \<noteq> []"
    by (simp_all add: fresh_def)
  from hasPaper_mask [of ?a] h(1) obtain b1 s1 where r1: "hasPaper ?a = Some (b1, s1)"
    by blast
  from hasPaper_mask [of ?b] h(2) obtain b2 s2 where r2: "hasPaper ?b = Some (b2, s2)"
    by blast
  from hasPaper_mask [of "fresh [0]"] h(3) obtain b3 s3 where r3: "hasPaper (fresh [0]) = Some (b3, s3)"
    by blast
  from hasPaper_mask [of ?a b1 s1] r1 p have "b1 = False" by (simp add: fresh_def)
  moreover from hasPaper_mask [of ?b b2 s2] r2 p have "b2 = True" by (simp add: fresh_def)
  moreover from hasPaper_mask [of "fresh [0]" b3 s3] r3 p have "b3 = False" by (simp add: fresh_def)
  ultimately show ?thesis using r1 r2 r3 by simp
qed

text \<open>
  C6 as stated fails on a status byte that has bits 5 and 6 set and another bit too:
  with the status \<^verbatim>\<open>0b01100001\<close> (97), which is not \<^verbatim>\<open>0b01100000\<close>, the result is false.
\<close>

theorem hasPaper_counterexample:
  "map_option fst (hasPaper ((fresh [0])\<lparr>rx := [Some 97]\<rparr>)) = Some False
   \<and> (97::u8) \<noteq> 96"
proof -
  have p: "pollStatus 10 [Some 97] = (97, [])" by (simp add: numeral_eq_Suc)
  let ?a = "(fresh [0])\<lparr>rx := [Some 97]\<rparr>"
  have "dtrEnabled ?a \<or> ticks ?a \<noteq> []" by (simp add: fresh_def)
  from hasPaper_returns [OF this] obtain b s' where r: "hasPaper ?a = Some (b, s')"
    by blast
  from hasPaper_result(1) [OF r] p have "b = False" by (simp add: fresh_def)
  with r show ?thesis by simp
qed

subsection \<open>C2: the cursor column\<close>

text \<open>
  C2, as amended. The column stays in \<open>[0, maxColumn]\<close>, the upper bound included: a
  call of the writer that starts with \<^verbatim>\<open>column <= maxColumn\<close> ends with it, for every
  character. After the writer has processed \<open>n\<close> characters other than newline and
  carriage return from column 0, the column is \<open>n\<close> modulo \<open>maxColumn + 1\<close>: it counts up
  to \<open>maxColumn\<close>, equals \<open>maxColumn\<close> when the call for character number \<open>maxColumn\<close>
  returns, and goes back to 0 with the next character, which is the one treated as
  wrapping. On a steady clock with two readings per character to come the writer
  returns.
\<close>

theorem column_wraps_past_maxColumn:
  "(column s \<le> maxColumn s \<and> write_byte c s = Some s' \<longrightarrow> column s' \<le> maxColumn s')
   \<and> (column s = 0 \<and> (\<forall>c\<in>set cs. c \<noteq> ASCII_LF \<and> c \<noteq> ASCII_CR) \<and> writeAll cs s = Some s' \<longrightarrow>
        unat (column s') = length cs mod (unat (maxColumn s) + 1)
        \<and> maxColumn s' = maxColumn s
        \<and> (length cs = unat (maxColumn s) \<longrightarrow> column s' = maxColumn s'))
   \<and> (steady X s \<and> busyBound s \<le> X \<and> 2 * length cs \<le> length (ticks s) \<longrightarrow>
        (\<exists>s''. writeAll cs s = Some s''))"
proof (intro conjI impI)
  assume "column s \<le> maxColumn s \<and> write_byte c s = Some s'"
  then show "column s' \<le> maxColumn s'" using write_byte_invariant [of c s s'] by simp
next
  assume a: "column s = 0 \<and> (\<forall>c\<in>set cs. c \<noteq> ASCII_LF \<and> c \<noteq> ASCII_CR) \<and> writeAll cs s = Some s'"
  then have "column s \<le> maxColumn s" by simp
  from writeAll_plain_column [of cs s s'] a this
  show u: "unat (column s') = length cs mod (unat (maxColumn s) + 1)"
    and m: "maxColumn s' = maxColumn s" by simp_all
  assume "length cs = unat (maxColumn s)"
  with u m show "column s' = maxColumn s'" by (simp add: word_unat_eq_iff)
next
  assume "steady X s \<and> busyBound s \<le> X \<and> 2 * length cs \<le> length (ticks s)"
  then show "\<exists>s''. writeAll cs s = Some s''" using steady_writeAll [of X s cs] by simp
qed

theorem column_wraps_past_maxColumn_witness:
  "map_option (\<lambda>s'. unat (column s')) (writeAll (replicate 40 65) (fresh (tickList 0 1000000 80)))
     = Some 7
   \<and> map_option (\<lambda>s'. unat (column s')) (writeAll (replicate 33 65) (fresh (tickList 0 1000000 80)))
     = Some 0
   \<and> map_option (\<lambda>s'. column s' = maxColumn s')
       (writeAll (replicate 32 65) (fresh (tickList 0 1000000 80))) = Some True
   \<and> map_option (\<lambda>s'. column s' \<le> maxColumn s')
       (write_byte 65 (fresh (tickList 0 1000000 80))) = Some True
   \<and> maxColumn (fresh (tickList 0 1000000 80)) = 32"
proof -
  let ?s = "fresh (tickList 0 1000000 80)"
  have h: "steady 1000000 ?s \<and> busyBound ?s \<le> 1000000"
    by (simp add: steady_fresh busyBound_fresh)
  have l: "2 * length (replicate 40 (65::u8)) \<le> length (ticks ?s)"
    "2 * length (replicate 33 (65::u8)) \<le> length (ticks ?s)"
    "2 * length (replicate 32 (65::u8)) \<le> length (ticks ?s)"
    "2 * length [65::u8] \<le> length (ticks ?s)"
    by (simp_all add: ticks_fresh length_tickList)
  have c: "column ?s = 0" "unat (maxColumn ?s) = 32" "column ?s \<le> maxColumn ?s"
    by (simp_all add: fresh_def)
  note th = column_wraps_past_maxColumn
  from th [where s = ?s and cs = "replicate 40 65" and X = 1000000] h l(1)
  obtain s1 where r1: "writeAll (replicate 40 65) ?s = Some s1" by blast
  from th [where s = ?s and cs = "replicate 33 65" and X = 1000000] h l(2)
  obtain s2 where r2: "writeAll (replicate 33 65) ?s = Some s2" by blast
  from th [where s = ?s and cs = "replicate 32 65" and X = 1000000] h l(3)
  obtain s3 where r3: "writeAll (replicate 32 65) ?s = Some s3" by blast
  from th [where s = ?s and cs = "[65]" and X = 1000000] h l(4)
  obtain s4 where "writeAll [65] ?s = Some s4" by blast
  then have r4: "write_byte 65 ?s = Some s4" by (simp split: bind_splits)
  from th [where s = ?s and s' = s1 and cs = "replicate 40 65"] r1 c
  have "unat (column s1) = 7" by simp
  moreover from th [where s = ?s and s' = s2 and cs = "replicate 33 65"] r2 c
  have "unat (column s2) = 0" by simp
  moreover from th [where s = ?s and s' = s3 and cs = "replicate 32 65"] r3 c
  have "column s3 = maxColumn s3" by simp
  moreover from th [where s = ?s and s' = s4 and c = 65] r4 c
  have "column s4 \<le> maxColumn s4" by simp
  ultimately show ?thesis using r1 r2 r3 r4 by (simp add: fresh_def)
qed

text \<open>
  C2 as stated fails after exactly \<open>maxColumn\<close> characters: 32 letters from column 0
  with \<open>maxColumn = 32\<close> leave the column at 32, which is \<open>maxColumn\<close> and not
  \<open>32 mod 32\<close>. None of the 32 characters wraps: the column was below \<open>maxColumn\<close>
  when each of them was written.
\<close>

theorem column_counterexample:
  "map_option (\<lambda>s'. (unat (column s'), unat (maxColumn s'), out s'))
     (writeAll (replicate 32 65) (fresh (tickList 0 1000000 64))) = Some (32, 32, replicate 32 65)
   \<and> (32::nat) mod 32 \<noteq> 32"
proof -
  let ?s = "fresh (tickList 0 1000000 64)"
  have "steady 1000000 ?s" "busyBound ?s \<le> 1000000"
    "2 * length (replicate 32 (65::u8)) \<le> length (ticks ?s)"
    by (simp_all add: steady_fresh busyBound_fresh ticks_fresh length_tickList)
  from steady_writeAll [OF this] obtain s1 where r: "writeAll (replicate 32 65) ?s = Some s1"
    by blast
  have c: "column ?s \<le> maxColumn ?s" "unat (column ?s) = 0" "unat (maxColumn ?s) = 32"
    by (simp_all add: fresh_def)
  from writeAll_plain_column [OF r _ c(1)] c(2,3)
  have "unat (column s1) = 32 \<and> unat (maxColumn s1) = 32 \<and> out s1 = replicate 32 65"
    by (simp add: fresh_def)
  then show ?thesis using r by simp
qed

subsection \<open>C4: the chunk height\<close>

text \<open>
  C4, as amended. For a bitmap at least one pixel wide and a \<^verbatim>\<open>maxChunkHeight\<close> of at
  least 1, the limit computed without handshake is the smaller of \<^verbatim>\<open>maxChunkHeight\<close> and
  \<open>256 div clippedRowBytes\<close>, where \<open>clippedRowBytes\<close> is the smaller of \<open>ceil(width/8)\<close>
  and 48; every chunk height, computed at any \<open>rowStart\<close> below the height, is at least 1
  and at most that limit. With handshake the limit is 255 and every chunk height is
  between 1 and 255.
\<close>

theorem chunk_height_bounds:
  "(1 \<le> w \<and> 1 \<le> mch \<and> rowStart < h \<longrightarrow>
      chunkHeightLimitOf False mch (rowBytesClippedOf (rowBytesOf w))
        = Some (min mch (256 div min \<lceil>real_of_int w / 8\<rceil> 48))
      \<and> 1 \<le> chunkHeightOf h rowStart (min mch (256 div min \<lceil>real_of_int w / 8\<rceil> 48))
      \<and> chunkHeightOf h rowStart (min mch (256 div min \<lceil>real_of_int w / 8\<rceil> 48))
          \<le> min mch (256 div min \<lceil>real_of_int w / 8\<rceil> 48))
   \<and> (rowStart < h \<longrightarrow>
        chunkHeightLimitOf True mch rbc = Some 255
        \<and> 1 \<le> chunkHeightOf h rowStart 255 \<and> chunkHeightOf h rowStart 255 \<le> 255)"
proof (intro conjI impI)
  assume a: "1 \<le> w \<and> 1 \<le> mch \<and> rowStart < h"
  then have w: "1 \<le> w" by simp
  note r = rowBytesClipped_range [OF w]
  let ?l = "min mch (256 div min \<lceil>real_of_int w / 8\<rceil> 48)"
  from chunkHeightLimit_timing [OF r(1,2), of mch] r(3)
  show "chunkHeightLimitOf False mch (rowBytesClippedOf (rowBytesOf w)) = Some ?l" by simp
  from r have "256 div 48 \<le> 256 div min \<lceil>real_of_int w / 8\<rceil> 48"
    by (intro zdiv_mono2) simp_all
  then have "1 \<le> ?l" using a by simp
  with a show "1 \<le> chunkHeightOf h rowStart ?l" by (intro chunkHeightOf_ge) simp_all
  show "chunkHeightOf h rowStart ?l \<le> ?l" by (rule chunkHeightOf_le)
next
  assume a: "rowStart < h"
  show "chunkHeightLimitOf True mch rbc = Some 255" by (simp add: chunkHeightLimitOf_def)
  show "1 \<le> chunkHeightOf h rowStart 255" using a by (intro chunkHeightOf_ge) simp_all
  show "chunkHeightOf h rowStart 255 \<le> 255" by (rule chunkHeightOf_le)
qed

theorem chunk_height_bounds_witness:
  "chunkHeightLimitOf False 255 (rowBytesClippedOf (rowBytesOf 400)) = Some 5
   \<and> chunkHeightOf 10 5 5 = 5
   \<and> chunkHeightLimitOf False 3 (rowBytesClippedOf (rowBytesOf 400)) = Some 3
   \<and> chunkHeightOf 10 9 3 = 1
   \<and> chunkHeightOf 300 0 255 = 255"
proof -
  have c: "\<lceil>real_of_int 400 / 8\<rceil> = 50" by simp
  from chunk_height_bounds [of 400 255 5 10 0] chunk_height_bounds [of 400 3 9 10 0] c
    chunk_height_bounds [of 400 3 0 300 0]
  show ?thesis by (simp add: chunkHeightOf_def)
qed

text \<open>
  C4 as stated, for every configuration, fails when \<^verbatim>\<open>maxChunkHeight\<close> is 0: the floor at 1
  is the \<^verbatim>\<open>else\<close> branch of the cap, and is not applied once the cap has been. After
  \<^verbatim>\<open>setMaxChunkHeight(0)\<close>, a bitmap of 8 by 1 pixels gets the limit 0 and a first chunk
  of height 0. Nor is there a chunk height for every width: for the width 0 the clipped
  row has 0 bytes and the limit is 256 divided by zero.
\<close>

theorem chunk_height_counterexample:
  "chunkHeightLimitOf (dtrEnabled (setMaxChunkHeight 0 (fresh [])))
      (uint (maxChunkHeight (setMaxChunkHeight 0 (fresh []))))
      (rowBytesClippedOf (rowBytesOf 8)) = Some 0
   \<and> chunkHeightOf 1 0 0 = 0
   \<and> rowBytesClippedOf (rowBytesOf 0) = 0
   \<and> chunkHeightLimitOf (dtrEnabled (fresh [])) (uint (maxChunkHeight (fresh []))) 0 = None"
  by (simp add: chunkHeightLimitOf_def chunkHeightOf_def rowBytesClippedOf_def rowBytesOf_def
      cdiv_def setMaxChunkHeight_def fresh_def Let_def)

subsection \<open>C7: parameters out of range\<close>

text \<open>
  C7, as amended. An underline weight, a character set, a code page or a font that is
  out of range, and on firmware 264 or later a barcode text that is too long, is not
  rejected: the operation sends its command. An underline weight above 2 is sent as 2,
  a character set above 15 as 15, a code page above 47 as 47; on firmware 264 or later
  a barcode text longer than 255 characters is sent as the length byte 255 and its
  first 255 characters. A font that is out of range is not moved to the nearest valid
  font: a number above 4, and a letter other than A to E or a to e, select font 0
  (font A). On a steady clock with enough readings to come each of these operations
  returns. The statement says nothing of the length of a barcode text on firmware
  before 264, where there is no clamp.
\<close>

theorem out_of_range_parameters:
  "(underlineOn weight s = Some s' \<longrightarrow> out s' = out s @ [ASCII_ESC, 45, min weight 2])
   \<and> (setCharset val s = Some s' \<longrightarrow> out s' = out s @ [ASCII_ESC, 82, min val 15])
   \<and> (setCodePage val s = Some s' \<longrightarrow> out s' = out s @ [ASCII_ESC, 116, min val 47])
   \<and> (setFont font s = Some s' \<longrightarrow>
        (\<exists>rest. out s' = out s @
           [ASCII_ESC, 77,
            (if font \<le> 4 then font
             else if 65 \<le> font \<and> font \<le> 69 then font - 65
             else if 97 \<le> font \<and> font \<le> 101 then font - 97
             else 0), FIN_CMD] @ rest))
   \<and> (264 \<le> firmware s \<and> printBarcode str btype s = Some s' \<longrightarrow>
        out s' = out s @ [ASCII_ESC, 100, 1, ASCII_GS, 72, 2, ASCII_GS, 119, 3,
                          ASCII_GS, 107, btype + 65, of_nat (min (length str) 255)]
                       @ take 255 str)
   \<and> (steady X s \<and> 2 \<le> length (ticks s) \<and> 3438 \<le> X \<longrightarrow>
        (\<exists>s''. underlineOn weight s = Some s'') \<and> (\<exists>s''. setCharset val s = Some s'')
        \<and> (\<exists>s''. setCodePage val s = Some s''))
   \<and> (steady X s \<and> 6 \<le> length (ticks s) \<and> 4584 \<le> X \<longrightarrow>
        (\<exists>s''. setFont font s = Some s''))
   \<and> (264 \<le> firmware s \<and> steady X s \<and> 12 + 2 * min (length str) 255 \<le> length (ticks s)
        \<and> 3438 \<le> X \<and> unat (dotFeedTime s * ucast (charHeight s)) \<le> X
        \<and> unat ((ucast (barcodeHeight s) + 40) * dotPrintTime s) \<le> X \<longrightarrow>
        (\<exists>s''. printBarcode str btype s = Some s''))"
proof (intro conjI impI)
  assume "underlineOn weight s = Some s'"
  then show "out s' = out s @ [ASCII_ESC, 45, min weight 2]"
    using writeBytes_frame(2) [of "[27, 45, min weight 2]" s s'] by (simp add: clamp_commands)
next
  assume "setCharset val s = Some s'"
  then show "out s' = out s @ [ASCII_ESC, 82, min val 15]"
    using writeBytes_frame(2) [of "[27, 82, min val 15]" s s'] by (simp add: clamp_commands)
next
  assume "setCodePage val s = Some s'"
  then show "out s' = out s @ [ASCII_ESC, 116, min val 47]"
    using writeBytes_frame(2) [of "[27, 116, min val 47]" s s'] by (simp add: clamp_commands)
next
  assume "setFont font s = Some s'"
  then show "\<exists>rest. out s' = out s @
           [ASCII_ESC, 77,
            (if font \<le> 4 then font
             else if 65 \<le> font \<and> font \<le> 69 then font - 65
             else if 97 \<le> font \<and> font \<le> 101 then font - 97
             else 0), FIN_CMD] @ rest"
    by (rule setFont_out)
next
  assume "264 \<le> firmware s \<and> printBarcode str btype s = Some s'"
  then show "out s' = out s @ [ASCII_ESC, 100, 1, ASCII_GS, 72, 2, ASCII_GS, 119, 3,
                          ASCII_GS, 107, btype + 65, of_nat (min (length str) 255)]
                       @ take 255 str"
    using printBarcode_recent_out [of str btype s s'] by simp
next
  assume a: "steady X s \<and> 2 \<le> length (ticks s) \<and> 3438 \<le> X"
  then have st: "steady X s" and l: "2 \<le> length (ticks s)" by simp_all
  from steady_writeBytes_ex [OF st l, of "[27, 45, min weight 2]"] a
  show "\<exists>s''. underlineOn weight s = Some s''" by (auto simp: clamp_commands)
  from steady_writeBytes_ex [OF st l, of "[27, 82, min val 15]"] a
  show "\<exists>s''. setCharset val s = Some s''" by (auto simp: clamp_commands)
  from steady_writeBytes_ex [OF st l, of "[27, 116, min val 47]"] a
  show "\<exists>s''. setCodePage val s = Some s''" by (auto simp: clamp_commands)
next
  assume a: "steady X s \<and> 6 \<le> length (ticks s) \<and> 4584 \<le> X"
  let ?s = "s\<lparr>fontData := (fontData s AND 248) OR
      (if 65 \<le> font then (if 69 < toupper font then 0 else toupper font - 65)
       else if 4 < font then 0 else font)\<rparr>"
  from a have "steady X ?s" "6 \<le> length (ticks ?s)" "4584 \<le> X" by (simp_all add: steady_def)
  from steady_adjustCharValues [OF this]
  obtain s'' where "adjustCharValues ?s = Some s''" by blast
  then have "setFont font s = Some s''" by (simp only: setFont_font)
  then show "\<exists>s''. setFont font s = Some s''" by blast
next
  assume "264 \<le> firmware s \<and> steady X s \<and> 12 + 2 * min (length str) 255 \<le> length (ticks s)
        \<and> 3438 \<le> X \<and> unat (dotFeedTime s * ucast (charHeight s)) \<le> X
        \<and> unat ((ucast (barcodeHeight s) + 40) * dotPrintTime s) \<le> X"
  then show "\<exists>s''. printBarcode str btype s = Some s''"
    using steady_printBarcode [of s X str btype] by blast
qed

theorem out_of_range_parameters_witness:
  "map_option out (underlineOn 9 (fresh (tickList 0 5000 2))) = Some [ASCII_ESC, 45, 2]
   \<and> map_option out (setCharset 200 (fresh (tickList 0 5000 2))) = Some [ASCII_ESC, 82, 15]
   \<and> map_option out (setCodePage 48 (fresh (tickList 0 5000 2))) = Some [ASCII_ESC, 116, 47]
   \<and> map_option (\<lambda>s'. take 4 (out s')) (setFont 101 (fresh (tickList 0 5000 6)))
       = Some [ASCII_ESC, 77, 4, FIN_CMD]
   \<and> map_option out (printBarcode (replicate 300 48) 8 (fresh (tickList 0 2700000 522)))
       = Some ([ASCII_ESC, 100, 1, ASCII_GS, 72, 2, ASCII_GS, 119, 3, ASCII_GS, 107, 73, 255]
               @ replicate 255 48)"
proof -
  let ?a = "fresh (tickList 0 5000 2)" and ?b = "fresh (tickList 0 5000 6)"
    and ?c = "fresh (tickList 0 2700000 522)"
  have ha: "steady 5000 ?a \<and> 2 \<le> length (ticks ?a) \<and> (3438::nat) \<le> 5000"
    by (simp add: steady_fresh ticks_fresh length_tickList)
  have hb: "steady 5000 ?b \<and> 6 \<le> length (ticks ?b) \<and> (4584::nat) \<le> 5000"
    by (simp add: steady_fresh ticks_fresh length_tickList)
  have hc: "264 \<le> firmware ?c \<and> steady 2700000 ?c
        \<and> 12 + 2 * min (length (replicate 300 (48::u8))) 255 \<le> length (ticks ?c)
        \<and> (3438::nat) \<le> 2700000 \<and> unat (dotFeedTime ?c * ucast (charHeight ?c)) \<le> 2700000
        \<and> unat ((ucast (barcodeHeight ?c) + 40) * dotPrintTime ?c) \<le> 2700000"
    by (simp add: steady_fresh ticks_fresh length_tickList) (simp add: fresh_def)
  note th = out_of_range_parameters
  from th [where s = ?a and weight = 9 and val = 200 and X = 5000] ha
  obtain u1 where r1: "underlineOn 9 ?a = Some u1" by blast
  from th [where s = ?a and val = 200 and X = 5000] ha
  obtain u2 where r2: "setCharset 200 ?a = Some u2" by blast
  from th [where s = ?a and val = 48 and X = 5000] ha
  obtain u3 where r3: "setCodePage 48 ?a = Some u3" by blast
  from th [where s = ?b and font = 101 and X = 5000] hb
  obtain u4 where r4: "setFont 101 ?b = Some u4" by blast
  from th [where s = ?c and str = "replicate 300 48" and btype = 8 and X = 2700000] hc
  obtain u5 where r5: "printBarcode (replicate 300 48) 8 ?c = Some u5" by blast
  from th [where s = ?a and s' = u1 and weight = 9] r1
  have o1: "out u1 = [27, 45, 2]" by (simp add: fresh_def)
  from th [where s = ?a and s' = u2 and val = 200] r2
  have o2: "out u2 = [27, 82, 15]" by (simp add: fresh_def)
  from th [where s = ?a and s' = u3 and val = 48] r3
  have o3: "out u3 = [27, 116, 47]" by (simp add: fresh_def)
  from th [where s = ?b and s' = u4 and font = 101, THEN conjunct2, THEN conjunct2,
      THEN conjunct2, THEN conjunct1, rule_format, OF r4]
  have o4: "take 4 (out u4) = [27, 77, 4, 12]" by (auto simp: fresh_def)
  from th [where s = ?c and s' = u5 and str = "replicate 300 48" and btype = 8] r5 hc
  have o5: "out u5 = [27, 100, 1, 29, 72, 2, 29, 119, 3, 29, 107, 73, 255] @ replicate 255 48"
    by (simp add: fresh_def)
  from r1 r2 r3 r4 r5 o1 o2 o3 o4 o5 show ?thesis by simp
qed

text \<open>
  C7 as stated fails for the font: the nearest valid font to the id 5 is 4 (font E,
  16 dots wide), but \<^verbatim>\<open>setFont(5)\<close> sends font 0 and sets the metrics of font A, 12x24.
  It fails for the barcode on firmware before 264 too: a text of 256 characters is not
  clamped, and \<^verbatim>\<open>printBarcode\<close> does not return, here with 5000 readings of the clock
  to come (and with any other number, by \<open>printBarcode_old_firmware_long\<close>), while
  on firmware 264 or later a text of 300 characters is sent within 522 readings.
\<close>

theorem out_of_range_counterexample:
  "map_option (\<lambda>s'. take 4 (out s')) (setFont 5 (fresh (tickList 0 5000 6)))
     = Some [ASCII_ESC, 77, 0, FIN_CMD]
   \<and> map_option (\<lambda>s'. (charWidth s', charHeight s')) (setFont 5 (fresh (tickList 0 5000 6)))
     = Some (12, 24)
   \<and> charWidth (adjustCharFields ((fresh [])\<lparr>fontData := 4\<rparr>)) = 16
   \<and> printBarcode (replicate 256 48) 8 ((fresh (tickList 0 2700000 5000))\<lparr>firmware := 263\<rparr>)
     = None"
proof -
  let ?b = "fresh (tickList 0 5000 6)"
  let ?s = "?b\<lparr>fontData := (fontData ?b AND 248) OR 0\<rparr>"
  have "steady 5000 ?s" "6 \<le> length (ticks ?s)" "(4584::nat) \<le> 5000"
    using steady_fresh [of 5000 5000 0 6]
    by (simp_all add: steady_def ticks_fresh length_tickList)
  from steady_adjustCharValues [OF this]
  obtain s'' where a: "adjustCharValues ?s = Some s''" by blast
  then have r: "setFont 5 ?b = Some s''" by (simp add: setFont_font)
  from setFont_out [OF r] have o: "take 4 (out s'') = [27, 77, 0, 12]" by (auto simp: fresh_def)
  note e = settings_fields [OF adjustCharValues_frame(1) [OF a]]
  have "charWidth (adjustCharFields ?s) = 12" "charHeight (adjustCharFields ?s) = 24"
    by (simp_all add: adjustCharFields_width adjustCharFields_height Let_def fresh_def)
  with e have m: "charWidth s'' = 12" "charHeight s'' = 24" by simp_all
  have "charWidth (adjustCharFields ((fresh [])\<lparr>fontData := 4\<rparr>)) = 16"
    by (simp add: adjustCharFields_width Let_def fresh_def)
  moreover have "printBarcode (replicate 256 48) 8
      ((fresh (tickList 0 2700000 5000))\<lparr>firmware := 263\<rparr>) = None"
    by (rule printBarcode_old_firmware_long) simp_all
  ultimately show ?thesis using r o m by simp
qed

subsection \<open>C5: a bitmap of 400 by 10 pixels\<close>

text \<open>
  C5. For a width of 400 pixels the row has 50 bytes, 48 after clipping, and without
  handshake and with \<^verbatim>\<open>maxChunkHeight = 255\<close> the limit is \<open>256 div 48 = 5\<close> rows. Printing
  a bitmap of 400 by 10 pixels then sends exactly: the chunk header \<^verbatim>\<open>DC2 * 5 48\<close>, the
  first 48 bytes of each of the rows 0 to 4 (row \<open>k\<close> starts at byte \<open>50 k\<close> of the
  source), the same header again, and the first 48 bytes of each of the rows 5 to 9.
  Bytes 48 and 49 of every row are not sent. The variant that reads a stream takes
  exactly 500 bytes from it, the 20 unsent ones included. On a steady clock with 486
  readings to come, and a source of at least 500 bytes, both variants return.
\<close>

theorem bitmap_400x10_chunks:
  "rowBytesOf 400 = 50 \<and> rowBytesClippedOf (rowBytesOf 400) = 48
   \<and> chunkHeightLimitOf False 255 (rowBytesClippedOf (rowBytesOf 400)) = Some 5
   \<and> (\<not> dtrEnabled s \<and> maxChunkHeight s = 255 \<and> printBitmap 400 10 bitmap s = Some s' \<longrightarrow>
        out s' = out s
          @ [ASCII_DC2, 42, 5, 48] @ concat (map (\<lambda>k. take 48 (drop (k * 50) bitmap)) [0..<5])
          @ [ASCII_DC2, 42, 5, 48] @ concat (map (\<lambda>k. take 48 (drop (250 + k * 50) bitmap)) [0..<5]))
   \<and> (\<not> dtrEnabled s \<and> maxChunkHeight s = 255
        \<and> printBitmapStream 400 10 src s = Some (src', s') \<longrightarrow>
        out s' = out s
          @ [ASCII_DC2, 42, 5, 48] @ concat (map (\<lambda>k. take 48 (drop (k * 50) (avail src))) [0..<5])
          @ [ASCII_DC2, 42, 5, 48]
          @ concat (map (\<lambda>k. take 48 (drop (250 + k * 50) (avail src))) [0..<5])
        \<and> avail src' = drop 500 (avail src) \<and> 500 \<le> length (avail src))
   \<and> (steady X s \<and> maxChunkHeight s = 255 \<and> 486 \<le> length (ticks s) \<and> 4584 \<le> X
        \<and> unat (5 * dotPrintTime s) \<le> X \<and> 500 \<le> length bitmap \<longrightarrow>
        (\<exists>s''. printBitmap 400 10 bitmap s = Some s''))
   \<and> (steady X s \<and> maxChunkHeight s = 255 \<and> 486 \<le> length (ticks s) \<and> 4584 \<le> X
        \<and> unat (5 * dotPrintTime s) \<le> X \<and> 500 \<le> length (avail src) \<longrightarrow>
        (\<exists>src'' s''. printBitmapStream 400 10 src s = Some (src'', s'')))"
proof (intro conjI impI)
  show "rowBytesOf 400 = 50" by (rule geometry_400)
  show "rowBytesClippedOf (rowBytesOf 400) = 48" by (simp add: geometry_400)
  show "chunkHeightLimitOf False 255 (rowBytesClippedOf (rowBytesOf 400)) = Some 5"
    by (simp add: geometry_400)
next
  assume "\<not> dtrEnabled s \<and> maxChunkHeight s = 255 \<and> printBitmap 400 10 bitmap s = Some s'"
  then show "out s' = out s
          @ [ASCII_DC2, 42, 5, 48] @ concat (map (\<lambda>k. take 48 (drop (k * 50) bitmap)) [0..<5])
          @ [ASCII_DC2, 42, 5, 48] @ concat (map (\<lambda>k. take 48 (drop (250 + k * 50) bitmap)) [0..<5])"
    using printBitmap_400x10_out(1) [of bitmap s s'] by blast
next
  assume a: "\<not> dtrEnabled s \<and> maxChunkHeight s = 255
        \<and> printBitmapStream 400 10 src s = Some (src', s')"
  then have r: "printBitmapStream 400 10 src s = Some (src', s')" and nd: "\<not> dtrEnabled s"
    and m: "maxChunkHeight s = 255" by simp_all
  note p = printBitmapStream_400x10_out [OF r nd m]
  show "out s' = out s
          @ [ASCII_DC2, 42, 5, 48] @ concat (map (\<lambda>k. take 48 (drop (k * 50) (avail src))) [0..<5])
          @ [ASCII_DC2, 42, 5, 48]
          @ concat (map (\<lambda>k. take 48 (drop (250 + k * 50) (avail src))) [0..<5])"
    by (rule p(1))
  show "avail src' = drop 500 (avail src)" by (rule p(2))
  show "500 \<le> length (avail src)" by (rule p(3))
next
  assume "steady X s \<and> maxChunkHeight s = 255 \<and> 486 \<le> length (ticks s) \<and> 4584 \<le> X
        \<and> unat (5 * dotPrintTime s) \<le> X \<and> 500 \<le> length bitmap"
  then show "\<exists>s''. printBitmap 400 10 bitmap s = Some s''"
    using steady_printBitmap_400x10 [of X s bitmap] by blast
next
  assume "steady X s \<and> maxChunkHeight s = 255 \<and> 486 \<le> length (ticks s) \<and> 4584 \<le> X
        \<and> unat (5 * dotPrintTime s) \<le> X \<and> 500 \<le> length (avail src)"
  then show "\<exists>src'' s''. printBitmapStream 400 10 src s = Some (src'', s'')"
    using steady_printBitmapStream_400x10 [of X s src] by blast
qed

theorem bitmap_400x10_chunks_witness:
  "map_option out (printBitmap 400 10 (replicate 500 7) (fresh (tickList 0 1000000 486)))
     = Some ([ASCII_DC2, 42, 5, 48] @ replicate 240 7 @ [ASCII_DC2, 42, 5, 48] @ replicate 240 7)
   \<and> map_option (\<lambda>(src', s'). (avail src', out s'))
       (printBitmapStream 400 10 (None # replicate 502 (Some 7))
          (fresh (tickList 0 1000000 486)))
     = Some ([7, 7], [ASCII_DC2, 42, 5, 48] @ replicate 240 7
                     @ [ASCII_DC2, 42, 5, 48] @ replicate 240 7)"
proof -
  let ?s = "fresh (tickList 0 1000000 486)"
  let ?bm = "replicate 500 (7::u8)"
  let ?src = "None # replicate 502 (Some (7::u8))"
  have av: "avail ?src = replicate 502 7" by (simp add: avail_replicate_Some)
  have h: "steady 1000000 ?s \<and> maxChunkHeight ?s = 255 \<and> 486 \<le> length (ticks ?s)
       \<and> (4584::nat) \<le> 1000000 \<and> unat (5 * dotPrintTime ?s) \<le> 1000000"
    by (simp add: steady_fresh ticks_fresh length_tickList) (simp add: fresh_def)
  have nd: "\<not> dtrEnabled ?s" "out ?s = []" by (simp_all add: fresh_def)
  note th = bitmap_400x10_chunks
  note mem = th [THEN conjunct2, THEN conjunct2, THEN conjunct2, THEN conjunct1, rule_format]
  note str = th [THEN conjunct2, THEN conjunct2, THEN conjunct2, THEN conjunct2, THEN conjunct1,
      rule_format]
  note memT = th [THEN conjunct2, THEN conjunct2, THEN conjunct2, THEN conjunct2, THEN conjunct2,
      THEN conjunct1, rule_format]
  note strT = th [THEN conjunct2, THEN conjunct2, THEN conjunct2, THEN conjunct2, THEN conjunct2,
      THEN conjunct2, rule_format]
  have "\<exists>s1. printBitmap 400 10 ?bm ?s = Some s1"
    by (rule memT [where X = 1000000]) (simp add: h)
  then obtain s1 where r1: "printBitmap 400 10 ?bm ?s = Some s1" by blast
  have "\<exists>src2 s2. printBitmapStream 400 10 ?src ?s = Some (src2, s2)"
    by (rule strT [where X = 1000000]) (simp add: h avail_replicate_Some)
  then obtain src2 s2 where r2: "printBitmapStream 400 10 ?src ?s = Some (src2, s2)" by blast
  have rows: "concat (map (\<lambda>k. take 48 (drop (k * 50) (replicate n (7::u8)))) [0..<5])
                = replicate 240 7"
    "concat (map (\<lambda>k. take 48 (drop (250 + k * 50) (replicate n (7::u8)))) [0..<5])
                = replicate 240 7" if "500 \<le> n" for n
  proof -
    have u: "[0..<5] = [0, 1, 2, 3, 4::nat]" by code_simp
    from that show
      "concat (map (\<lambda>k. take 48 (drop (k * 50) (replicate n (7::u8)))) [0..<5])
                = replicate 240 7"
      "concat (map (\<lambda>k. take 48 (drop (250 + k * 50) (replicate n (7::u8)))) [0..<5])
                = replicate 240 7"
      unfolding u by (auto simp: min_def replicate_add [symmetric])
  qed
  have "out s1 = out ?s
          @ [18, 42, 5, 48] @ concat (map (\<lambda>k. take 48 (drop (k * 50) ?bm)) [0..<5])
          @ [18, 42, 5, 48] @ concat (map (\<lambda>k. take 48 (drop (250 + k * 50) ?bm)) [0..<5])"
    by (rule mem) (simp add: nd h r1)
  then have o1: "out s1 = [18, 42, 5, 48] @ replicate 240 7 @ [18, 42, 5, 48] @ replicate 240 7"
    by (simp only: rows nd) simp
  have "out s2 = out ?s
          @ [18, 42, 5, 48] @ concat (map (\<lambda>k. take 48 (drop (k * 50) (avail ?src))) [0..<5])
          @ [18, 42, 5, 48]
          @ concat (map (\<lambda>k. take 48 (drop (250 + k * 50) (avail ?src))) [0..<5])
        \<and> avail src2 = drop 500 (avail ?src) \<and> 500 \<le> length (avail ?src)"
    by (rule str) (simp add: nd h r2)
  then have o2: "out s2 = [18, 42, 5, 48] @ replicate 240 7 @ [18, 42, 5, 48] @ replicate 240 7"
    and a2: "avail src2 = [7, 7]"
    by (simp_all only: av rows nd) (simp_all add: numeral_2_eq_2)
  from r1 r2 o1 o2 a2 show ?thesis by simp
qed

end
